theory Spec2Isabelle
  imports Main "HOL-Library.Word" "HOL-Library.Sublist"
begin

section \<open>Bytes, strings and errors\<close>

text \<open>
  A Go \<open>byte\<close> is an 8-bit value and so is an Isabelle \<open>char\<close>; a Go \<open>string\<close> and a
  \<open>[]byte\<close> are both sequences of bytes. Both are modelled as \<open>string\<close> (\<open>char list\<close>),
  so \<open>len\<close> is \<open>length\<close> and counts bytes. Go's \<open>int\<close> is modelled as \<open>int\<close> where it
  can be negative and as \<open>nat\<close> for loop indices that start at 0 and only grow; no
  length here can reach \<open>2^63\<close>.
\<close>

type_synonym byte = char

text \<open>Modelled from the spec: the constants \<open>cr\<close> and \<open>lf\<close> of the package (their
  declaration is not among the sources) are the CR and LF terminator bytes.\<close>

definition cr :: byte where
  "cr = CHR 0x0D"

definition lf :: byte where
  "lf = CHR 0x0A"

text \<open>The error values of the Go library that cross the functions of \<open>lines.go\<close>:
  the two sentinels \<open>SplitLines\<close> returns (\<open>io.EOF\<close>, \<open>bufio.ErrFinalToken\<close>) and the
  errors \<open>bufio.Scanner\<close> sets itself.\<close>

datatype go_error = EOF | ErrFinalToken | ErrTooLong | ErrNoProgress | ErrAdvanceTooFar

section \<open>SplitLines\<close>

text \<open>
  \<open>SplitLines(data, atEOF)\<close> returns \<open>(advance, token, err)\<close>; a \<open>nil\<close> token is \<open>None\<close>.
  The \<open>for i < len(data)\<close> loop is the recursion on \<open>i\<close>; the code after the loop is the
  last branch.
\<close>

function SplitLines_loop :: "string \<Rightarrow> bool \<Rightarrow> nat \<Rightarrow> nat \<times> string option \<times> go_error option" where
  "SplitLines_loop data atEOF i =
     (if i < length data then
        (if data ! i = cr then
           (let i = i + 1 in
            if i < length data \<and> \<not> atEOF then (0, None, None)
            else
              (let i = (if i < length data \<and> data ! i = lf then i + 1 else i)
               in (i, Some (take i data), None)))
         else if data ! i = lf then
           (let i = i + 1 in (i, Some (take i data), None))
         else SplitLines_loop data atEOF (i + 1))
      else if \<not> atEOF then (0, None, None)
      else if atEOF \<and> i \<noteq> 0 then (0, Some data, Some ErrFinalToken)
      else (0, None, Some EOF))"
  by pat_completeness auto
termination
  by (relation "measure (\<lambda>(data, atEOF, i). length data - i)") auto

definition SplitLines :: "string \<Rightarrow> bool \<Rightarrow> nat \<times> string option \<times> go_error option" where
  "SplitLines data atEOF = SplitLines_loop data atEOF 0"

declare SplitLines_loop.simps [simp del]

section \<open>SplitLines: the loop\<close>

definition is_eol :: "byte \<Rightarrow> bool" where
  "is_eol c = (c = cr \<or> c = lf)"

lemma cr_neq_lf [simp]: "cr \<noteq> lf" "lf \<noteq> cr"
  by (simp_all add: cr_def lf_def)

lemma is_eol_simps [simp]: "is_eol cr" "is_eol lf"
  by (simp_all add: is_eol_def)

text \<open>The loop skips bytes that are neither CR nor LF.\<close>

lemma SplitLines_loop_skip:
  assumes "\<forall>c \<in> set pre. \<not> is_eol c" "i \<le> length pre"
  shows "SplitLines_loop (pre @ c # post) atEOF i
       = SplitLines_loop (pre @ c # post) atEOF (length pre)"
  using assms
proof (induction "length pre - i" arbitrary: i)
  case 0
  then show ?case by simp
next
  case (Suc n)
  then have lt: "i < length pre" by simp
  then have "\<not> is_eol (pre ! i)" using Suc.prems(1) by simp
  then have ne: "(pre @ c # post) ! i \<noteq> cr" "(pre @ c # post) ! i \<noteq> lf"
    using lt by (auto simp: nth_append is_eol_def)
  have "SplitLines_loop (pre @ c # post) atEOF i
      = SplitLines_loop (pre @ c # post) atEOF (i + 1)"
    using lt ne by (subst SplitLines_loop.simps) simp
  also have "\<dots> = SplitLines_loop (pre @ c # post) atEOF (length pre)"
    using Suc.hyps(1)[of "i + 1"] Suc.hyps(2) Suc.prems lt by simp
  finally show ?case .
qed

lemma SplitLines_first_eol:
  assumes "\<forall>c \<in> set pre. \<not> is_eol c"
  shows "SplitLines (pre @ c # post) atEOF = SplitLines_loop (pre @ c # post) atEOF (length pre)"
  unfolding SplitLines_def using SplitLines_loop_skip[OF assms, of 0] by simp

text \<open>What a call can return: a record is a non-empty prefix of the buffer and is
  advanced over whole; a request for more input comes only before the end of the
  stream; the two errors come only at the end of the stream.\<close>

lemma SplitLines_loop_result:
  assumes "SplitLines_loop d atEOF i = (adv, tok, e)" "i \<le> length d"
  shows "(case e of
            None \<Rightarrow> (case tok of
                       None \<Rightarrow> adv = 0 \<and> \<not> atEOF
                     | Some t \<Rightarrow> i < adv \<and> adv \<le> length d \<and> t = take adv d)
          | Some x \<Rightarrow> adv = 0 \<and> atEOF \<and>
                      (if d \<noteq> [] then x = ErrFinalToken \<and> tok = Some d
                       else x = EOF \<and> tok = None))"
  using assms
proof (induction d atEOF i rule: SplitLines_loop.induct)
  case (1 d atEOF i)
  show ?case
  proof (cases "i < length d \<and> d ! i \<noteq> cr \<and> d ! i \<noteq> lf")
    case True
    then have "SplitLines_loop d atEOF i = SplitLines_loop d atEOF (i + 1)"
      by (subst SplitLines_loop.simps) simp
    with "1.prems" have "SplitLines_loop d atEOF (i + 1) = (adv, tok, e)" by simp
    from "1.IH"[OF _ _ _ this] True
    show ?thesis by (auto split: option.splits if_splits)
  next
    case False
    with "1.prems" show ?thesis
      by (subst (asm) SplitLines_loop.simps)
         (auto simp: Let_def split: if_splits option.splits)
  qed
qed

lemma SplitLines_result:
  assumes "SplitLines d atEOF = (adv, tok, e)"
  shows "(case e of
            None \<Rightarrow> (case tok of
                       None \<Rightarrow> adv = 0 \<and> \<not> atEOF
                     | Some t \<Rightarrow> 0 < adv \<and> adv \<le> length d \<and> t = take adv d)
          | Some x \<Rightarrow> adv = 0 \<and> atEOF \<and>
                      (if d \<noteq> [] then x = ErrFinalToken \<and> tok = Some d
                       else x = EOF \<and> tok = None))"
  using SplitLines_loop_result[of d atEOF 0 adv tok e] assms
  by (auto simp: SplitLines_def split: option.splits if_splits)

text \<open>
  C1. The claim: when the first terminator byte of the buffer is a CR, a following LF
  in the buffer is consumed with it as one CRLF terminator, and a CR that is the last
  byte of the buffer with \<open>atEOF\<close> false makes \<open>SplitLines\<close> ask for more input. The code
  tests \<open>i < len(data) && !atEOF\<close> under its comment "Request more data", the reverse
  of the buffer being exhausted. So, for every buffer whose first terminator is a CR and
  with \<open>atEOF\<close> false: a CR followed by any byte (an LF too) returns advance 0 and no
  token, and a CR that ends the buffer is returned at once as a one-byte terminator.
\<close>

theorem SplitLines_cr_not_atEOF:
  assumes "\<forall>c \<in> set pre. \<not> is_eol c"
  shows "SplitLines (pre @ cr # c # post) False = (0, None, None)
       \<and> SplitLines (pre @ [cr]) False = (length pre + 1, Some (pre @ [cr]), None)"
proof
  show "SplitLines (pre @ cr # c # post) False = (0, None, None)"
    by (subst SplitLines_first_eol[OF assms], subst SplitLines_loop.simps) simp
  show "SplitLines (pre @ [cr]) False = (length pre + 1, Some (pre @ [cr]), None)"
    by (subst SplitLines_first_eol[OF assms], subst SplitLines_loop.simps) simp
qed

theorem SplitLines_cr_not_atEOF_witness:
  "SplitLines (''ab'' @ cr # lf # ''cd'') False = (0, None, None)
 \<and> SplitLines (''ab'' @ [cr]) False = (3, Some (''ab'' @ [cr]), None)"
proof -
  have h: "\<forall>c \<in> set ''ab''. \<not> is_eol c"
    by (simp add: is_eol_def cr_def lf_def)
  show ?thesis
    using SplitLines_cr_not_atEOF[OF h, of lf "''cd''"] by simp
qed

section \<open>The reader and bufio.Scanner\<close>

text \<open>
  \<open>ReadLines\<close> drives \<open>SplitLines\<close> through a \<open>bufio.Scanner\<close> of the Go library over an
  \<open>io.Reader\<close>. Neither is code of this package; they are modelled after the library.

  The reader holds the bytes of the stream it has not delivered yet. How many bytes a
  \<open>Read\<close> hands over is the reader's choice: \<open>sizes\<close> lists, call by call, one less
  than the number of bytes the reader is ready to give (so every call gives at least
  one byte while bytes remain and the slice has room), and a reader whose list has run
  out fills the slice it is given. At the end of the stream a reader reports \<open>io.EOF\<close>
  either together with the last bytes (\<open>eof_with_data\<close>) or by a call of its own that
  returns no byte. A reader that fails with another error is not modelled.
\<close>

record Reader =
  pending :: string
  sizes :: "nat list"
  eof_with_data :: bool

definition Read :: "Reader \<Rightarrow> nat \<Rightarrow> string \<times> go_error option \<times> Reader" where
  "Read rd room =
     (if pending rd = [] then ([], Some EOF, rd)
      else
        (let want = (case sizes rd of [] \<Rightarrow> room | k # _ \<Rightarrow> Suc k);
             n = min want (min room (length (pending rd)));
             rd' = rd\<lparr>pending := drop n (pending rd), sizes := tl (sizes rd)\<rparr>
         in (take n (pending rd),
             if pending rd' = [] \<and> eof_with_data rd then Some EOF else None,
             rd')))"

text \<open>
  The scanner: \<open>buf_len\<close> is \<open>len(s.buf)\<close>, \<open>buffered\<close> is \<open>s.buf[s.start:s.end]\<close> (so
  \<open>s.end\<close> is \<open>start + length buffered\<close>), \<open>err\<close> is \<open>s.err\<close>.
\<close>

record Scanner =
  reader :: Reader
  buf_len :: nat
  start :: nat
  buffered :: string
  err :: "go_error option"

definition MaxScanTokenSize :: nat where
  "MaxScanTokenSize = 64 * 1024"

definition startBufSize :: nat where
  "startBufSize = 4096"

definition NewScanner :: "Reader \<Rightarrow> Scanner" where
  "NewScanner rd = \<lparr>reader = rd, buf_len = 0, start = 0, buffered = [], err = None\<rparr>"

text \<open>The inner loop of \<open>Scan\<close> that reads: one \<open>Read\<close> into \<open>s.buf[s.end:len(s.buf)]\<close>.
  A \<open>Read\<close> that gives no byte and no error is repeated by the library up to 100 times
  and then ends in \<open>io.ErrNoProgress\<close>; the reader of this model does so only for a
  slice without room, every time.\<close>

definition read_more :: "Scanner \<Rightarrow> Scanner" where
  "read_more s =
     (case Read (reader s) (buf_len s - (start s + length (buffered s))) of
        (chunk, e, rd') \<Rightarrow>
          (let s = s\<lparr>reader := rd', buffered := buffered s @ chunk\<rparr>
           in if e \<noteq> None then s\<lparr>err := e\<rparr>
              else if chunk \<noteq> [] then s
              else s\<lparr>err := Some ErrNoProgress\<rparr>))"

text \<open>"Must read more data": shift the data to the beginning of the buffer, double a
  full buffer up to the maximal token size (\<open>ErrTooLong\<close> beyond), then read. The
  library's second test before doubling, \<open>len(s.buf) > maxInt/2\<close>, guards the
  multiplication against overflow; \<open>len(s.buf) >= s.maxTokenSize\<close> holds whenever it
  does, so it is left out.\<close>

definition fill :: "Scanner \<Rightarrow> go_error + Scanner" where
  "fill s =
     (let s = (if start s > 0 \<and>
                  (start s + length (buffered s) = buf_len s \<or> start s > buf_len s div 2)
               then s\<lparr>start := 0\<rparr> else s)
      in if start s + length (buffered s) = buf_len s then
           (if buf_len s \<ge> MaxScanTokenSize then Inl ErrTooLong
            else
              (let newSize = buf_len s * 2;
                   newSize = (if newSize = 0 then startBufSize else newSize);
                   newSize = min newSize MaxScanTokenSize
               in Inr (read_more (s\<lparr>buf_len := newSize, start := 0\<rparr>))))
         else Inr (read_more s))"

text \<open>\<open>s.setErr\<close>: an error replaces none and \<open>io.EOF\<close>, and no other.\<close>

definition setErr :: "go_error option \<Rightarrow> go_error \<Rightarrow> go_error option" where
  "setErr cur e = (if cur = None \<or> cur = Some EOF then Some e else cur)"

text \<open>One turn of the loop of \<open>Scan\<close>, with \<open>SplitLines\<close> as the split function: it
  returns a token (\<open>Scan\<close> returns true), a final token (\<open>ErrFinalToken\<close>: \<open>Scan\<close> returns
  true if there is a token, and false ever after), stops (\<open>Scan\<close> returns false; \<open>Stop\<close>
  carries \<open>s.err\<close> as it is then), or has read more data and goes round again.\<close>

datatype scan_turn =
  Token string Scanner | Final "string option" | Stop "go_error option" | More Scanner

definition Scan_turn :: "Scanner \<Rightarrow> scan_turn" where
  "Scan_turn s =
     (let more = (\<lambda>s. if err s \<noteq> None then Stop (err s)
                      else (case fill s of Inl e \<Rightarrow> Stop (Some e) | Inr s' \<Rightarrow> More s'))
      in if buffered s \<noteq> [] \<or> err s \<noteq> None then
           (case SplitLines (buffered s) (err s \<noteq> None) of
              (advance, token, Some e) \<Rightarrow>
                if e = ErrFinalToken then Final token else Stop (setErr (err s) e)
            | (advance, token, None) \<Rightarrow>
                if advance > length (buffered s) then Stop (setErr (err s) ErrAdvanceTooFar)
                else
                  (let s = s\<lparr>start := start s + advance, buffered := drop advance (buffered s)\<rparr>
                   in case token of Some t \<Rightarrow> Token t s | None \<Rightarrow> more s))
         else more s)"

definition scan_measure :: "Scanner \<Rightarrow> nat \<times> nat" where
  "scan_measure s =
     (length (pending (reader s)) + (if err s = None then 1 else 0), length (buffered s))"

lemma Read_progress:
  assumes "Read rd room = (chunk, e, rd')"
  shows "pending rd = chunk @ pending rd'"
    and "e = None \<Longrightarrow> chunk \<noteq> [] \<Longrightarrow> length (pending rd') < length (pending rd)"
  using assms by (auto simp: Read_def Let_def split: if_splits)

lemma read_more_measure:
  assumes "err s = None"
  shows "length (pending (reader (read_more s))) + (if err (read_more s) = None then 1 else 0)
       < length (pending (reader s)) + 1"
proof -
  obtain chunk e rd' where R: "Read (reader s) (buf_len s - (start s + length (buffered s))) = (chunk, e, rd')"
    by (cases "Read (reader s) (buf_len s - (start s + length (buffered s)))") auto
  from Read_progress[OF R] show ?thesis
    by (auto simp: read_more_def R Let_def)
qed

lemma fill_Inr:
  assumes "fill s = Inr s'"
  obtains s1 where "s' = read_more s1" "err s1 = err s" "reader s1 = reader s"
    "buffered s1 = buffered s"
proof -
  define s0 where "s0 = (if start s > 0 \<and>
                  (start s + length (buffered s) = buf_len s \<or> start s > buf_len s div 2)
               then s\<lparr>start := 0\<rparr> else s)"
  have s0: "err s0 = err s" "reader s0 = reader s" "buffered s0 = buffered s"
    by (simp_all add: s0_def)
  have "s' = read_more s0 \<or> (\<exists>n. s' = read_more (s0\<lparr>buf_len := n, start := 0\<rparr>))"
    using assms unfolding fill_def s0_def[symmetric] Let_def
    by (auto split: if_splits)
  then show ?thesis
  proof
    assume "s' = read_more s0"
    then show ?thesis using s0 that by blast
  next
    assume "\<exists>n. s' = read_more (s0\<lparr>buf_len := n, start := 0\<rparr>)"
    then obtain n where "s' = read_more (s0\<lparr>buf_len := n, start := 0\<rparr>)" by blast
    then show ?thesis using s0 that[of "s0\<lparr>buf_len := n, start := 0\<rparr>"] by simp
  qed
qed

lemma fill_measure:
  assumes "fill s = Inr s'" "err s = None"
  shows "length (pending (reader s')) + (if err s' = None then 1 else 0)
       < length (pending (reader s)) + 1"
proof -
  obtain s1 where "s' = read_more s1" "err s1 = err s" "reader s1 = reader s"
    using fill_Inr[OF assms(1)] by blast
  then show ?thesis using read_more_measure[of s1] assms(2) by simp
qed

lemma Scan_turn_More:
  assumes "Scan_turn s = More s'"
  shows "(scan_measure s', scan_measure s) \<in> less_than <*lex*> less_than"
proof -
  have "err s = None" using assms
    by (auto simp: Scan_turn_def Let_def split: if_splits prod.splits option.splits sum.splits)
  moreover obtain s1 where "fill s1 = Inr s'" "err s1 = err s" "reader s1 = reader s"
    using assms
    by (auto simp: Scan_turn_def Let_def split: if_splits prod.splits option.splits sum.splits)
  ultimately show ?thesis
    using fill_measure[of s1 s'] by (auto simp: scan_measure_def)
qed

lemma Scan_turn_Token:
  assumes "Scan_turn s = Token t s'"
  shows "(scan_measure s', scan_measure s) \<in> less_than <*lex*> less_than"
proof -
  obtain advance where S: "SplitLines (buffered s) (err s \<noteq> None) = (advance, Some t, None)"
    and s': "s' = s\<lparr>start := start s + advance, buffered := drop advance (buffered s)\<rparr>"
    using assms
    by (auto simp: Scan_turn_def Let_def split: if_splits prod.splits option.splits sum.splits)
  from SplitLines_result[OF S] show ?thesis
    by (auto simp: scan_measure_def s')
qed

text \<open>
  The tokens of the calls \<open>sc.Scan()\<close> that return true, in order, until a call returns
  false: the loop \<open>for sc.Scan()\<close> of \<open>ReadLines\<close> sees exactly these. The turns of one
  call and the calls that follow it are one recursion. It is total: a turn that reads
  takes bytes from the reader or meets its end, and a token takes bytes from the
  buffer, since \<open>SplitLines\<close> never returns an empty record.
\<close>

function Scan_tokens :: "Scanner \<Rightarrow> string list" where
  "Scan_tokens s =
     (case Scan_turn s of
        Token t s' \<Rightarrow> t # Scan_tokens s'
      | Final token \<Rightarrow> (case token of None \<Rightarrow> [] | Some t \<Rightarrow> [t])
      | Stop e \<Rightarrow> []
      | More s' \<Rightarrow> Scan_tokens s')"
  by pat_completeness auto
termination
proof (relation "inv_image (less_than <*lex*> less_than) scan_measure")
  show "wf (inv_image (less_than <*lex*> less_than) scan_measure)"
    by (intro wf_inv_image wf_lex_prod wf_less_than)
next
  fix s t s' assume "Scan_turn s = Token t s'"
  then show "(s', s) \<in> inv_image (less_than <*lex*> less_than) scan_measure"
    using Scan_turn_Token by simp
next
  fix s s' assume "Scan_turn s = More s'"
  then show "(s', s) \<in> inv_image (less_than <*lex*> less_than) scan_measure"
    using Scan_turn_More by simp
qed

declare Scan_tokens.simps [simp del]

text \<open>
  \<open>sc.Err()\<close> after that loop: the error the scanner has stopped with, where \<open>io.EOF\<close>
  counts as none. \<open>Scan_stopped\<close> is \<open>s.err\<close> at the call of \<open>Scan\<close> that returns false (after
  a final token, the next call).
\<close>

function Scan_stopped :: "Scanner \<Rightarrow> go_error option" where
  "Scan_stopped s =
     (case Scan_turn s of
        Token t s' \<Rightarrow> Scan_stopped s'
      | Final token \<Rightarrow> err s
      | Stop e \<Rightarrow> e
      | More s' \<Rightarrow> Scan_stopped s')"
  by pat_completeness auto
termination
proof (relation "inv_image (less_than <*lex*> less_than) scan_measure")
  show "wf (inv_image (less_than <*lex*> less_than) scan_measure)"
    by (intro wf_inv_image wf_lex_prod wf_less_than)
next
  fix s t s' assume "Scan_turn s = Token t s'"
  then show "(s', s) \<in> inv_image (less_than <*lex*> less_than) scan_measure"
    using Scan_turn_Token by simp
next
  fix s s' assume "Scan_turn s = More s'"
  then show "(s', s) \<in> inv_image (less_than <*lex*> less_than) scan_measure"
    using Scan_turn_More by simp
qed

declare Scan_stopped.simps [simp del]

definition Scan_Err :: "Scanner \<Rightarrow> go_error option" where
  "Scan_Err s = (if Scan_stopped s = Some EOF then None else Scan_stopped s)"

text \<open>
  \<open>ReadLines\<close>. The body of its loop copies the token to a slice of its own (\<open>line\<close>, the
  same bytes), adds its length to \<open>read\<close> (an \<open>int64\<close>; no stream reaches \<open>2^63\<close> bytes)
  and calls \<open>fn(i, line, read == fileSize)\<close>. \<open>ReadLines_calls\<close> is the list of these
  calls, in order; \<open>ReadLines\<close> returns the errors that \<open>fn\<close> answers them with. The
  scanner's own error, \<open>sc.Err()\<close> after the loop, is \<open>ReadLines_sc_Err\<close>; the code does
  not read it.
\<close>

fun ReadLines_loop :: "string list \<Rightarrow> int \<Rightarrow> int \<Rightarrow> int \<Rightarrow> (int \<times> string \<times> bool) list" where
  "ReadLines_loop [] fileSize read i = []"
| "ReadLines_loop (l # ls) fileSize read i =
     (let read = read + int (length l)
      in (i, l, read = fileSize) # ReadLines_loop ls fileSize read (i + 1))"

definition ReadLines_calls :: "Reader \<Rightarrow> int \<Rightarrow> (int \<times> string \<times> bool) list" where
  "ReadLines_calls rd fileSize = ReadLines_loop (Scan_tokens (NewScanner rd)) fileSize 0 0"

definition ReadLines_sc_Err :: "Reader \<Rightarrow> go_error option" where
  "ReadLines_sc_Err rd = Scan_Err (NewScanner rd)"

definition ReadLines :: "Reader \<Rightarrow> int \<Rightarrow> (int \<Rightarrow> string \<Rightarrow> bool \<Rightarrow> 'e option) \<Rightarrow> 'e list" where
  "ReadLines rd fileSize fn =
     List.map_filter (\<lambda>(i, line, final). fn i line final) (ReadLines_calls rd fileSize)"

section \<open>The scanner over SplitLines: what a turn does\<close>

text \<open>The window \<open>s.buf[s.start:s.end]\<close> lies inside the buffer.\<close>

definition scanner_inv :: "Scanner \<Rightarrow> bool" where
  "scanner_inv s = (start s + length (buffered s) \<le> buf_len s)"

lemma Read_chunk:
  assumes "Read rd room = (chunk, e, rd')"
  shows "pending rd = chunk @ pending rd'" "length chunk \<le> room"
    "e \<noteq> None \<Longrightarrow> pending rd' = []"
    "e = None \<Longrightarrow> chunk = [] \<Longrightarrow> room = 0"
    "e = None \<or> e = Some EOF"
  using assms by (auto simp: Read_def Let_def min_def split: if_splits list.splits)

lemma read_more_props:
  "\<exists>chunk. buffered (read_more s) = buffered s @ chunk
         \<and> pending (reader s) = chunk @ pending (reader (read_more s))
         \<and> length chunk \<le> buf_len s - (start s + length (buffered s))
         \<and> start (read_more s) = start s \<and> buf_len (read_more s) = buf_len s
         \<and> (err s = None \<longrightarrow> err (read_more s) \<noteq> None
              \<longrightarrow> start s + length (buffered s) < buf_len s
              \<longrightarrow> pending (reader (read_more s)) = [] \<and> err (read_more s) = Some EOF)"
proof -
  obtain chunk e rd' where R: "Read (reader s) (buf_len s - (start s + length (buffered s))) = (chunk, e, rd')"
    by (cases "Read (reader s) (buf_len s - (start s + length (buffered s)))") auto
  note C = Read_chunk[OF R]
  have 1: "buffered (read_more s) = buffered s @ chunk"
    by (simp add: read_more_def R Let_def)
  have 2: "pending (reader s) = chunk @ pending (reader (read_more s))"
    using C(1) by (simp add: read_more_def R Let_def)
  have 3: "length chunk \<le> buf_len s - (start s + length (buffered s))"
    using C(2) .
  have 4: "start (read_more s) = start s" "buf_len (read_more s) = buf_len s"
    by (simp_all add: read_more_def R Let_def)
  have 5: "pending (reader (read_more s)) = [] \<and> err (read_more s) = Some EOF"
    if "err s = None" "err (read_more s) \<noteq> None" "start s + length (buffered s) < buf_len s"
  proof (cases "e = None")
    case True
    with that C(4) have "chunk \<noteq> []" by auto
    with True that show ?thesis by (simp add: read_more_def R Let_def)
  next
    case False
    with C(3) C(5) show ?thesis by (auto simp: read_more_def R Let_def)
  qed
  show ?thesis
    using 1 2 3 4 5 by (intro exI[of _ chunk]) simp
qed

lemma fill_props:
  assumes "fill s = Inr s'"
  shows "\<exists>chunk. buffered s' = buffered s @ chunk
         \<and> pending (reader s) = chunk @ pending (reader s')
         \<and> (scanner_inv s \<longrightarrow> scanner_inv s')
         \<and> (scanner_inv s \<longrightarrow> err s = None \<longrightarrow> err s' \<noteq> None
              \<longrightarrow> pending (reader s') = [] \<and> err s' = Some EOF)"
proof -
  define s0 where "s0 = (if start s > 0 \<and>
                  (start s + length (buffered s) = buf_len s \<or> start s > buf_len s div 2)
               then s\<lparr>start := 0\<rparr> else s)"
  have s0: "err s0 = err s" "reader s0 = reader s" "buffered s0 = buffered s"
    "buf_len s0 = buf_len s" "scanner_inv s \<Longrightarrow> scanner_inv s0"
    by (simp_all add: s0_def scanner_inv_def)
  define s1 where "s1 = (if start s0 + length (buffered s0) = buf_len s0
      then s0\<lparr>buf_len := min (if buf_len s0 * 2 = 0 then startBufSize else buf_len s0 * 2) MaxScanTokenSize, start := 0\<rparr>
      else s0)"
  have s': "s' = read_more s1"
    and full: "start s0 + length (buffered s0) = buf_len s0 \<Longrightarrow> buf_len s0 < MaxScanTokenSize"
    using assms unfolding fill_def s0_def[symmetric] Let_def s1_def
    by (auto split: if_splits)
  have s1: "err s1 = err s" "reader s1 = reader s" "buffered s1 = buffered s"
    using s0 by (simp_all add: s1_def)
  have room: "scanner_inv s \<Longrightarrow> start s1 + length (buffered s1) < buf_len s1"
  proof -
    assume "scanner_inv s"
    then have i0: "start s0 + length (buffered s0) \<le> buf_len s0"
      using s0(5) by (simp add: scanner_inv_def)
    show ?thesis
    proof (cases "start s0 + length (buffered s0) = buf_len s0")
      case True
      then have "length (buffered s0) \<le> buf_len s0" "buf_len s0 < MaxScanTokenSize"
        using full by simp_all
      then show ?thesis using True
        by (simp add: s1_def startBufSize_def)
    next
      case False
      then show ?thesis using i0 by (simp add: s1_def)
    qed
  qed
  obtain chunk where c0: "buffered (read_more s1) = buffered s1 @ chunk
         \<and> pending (reader s1) = chunk @ pending (reader (read_more s1))
         \<and> length chunk \<le> buf_len s1 - (start s1 + length (buffered s1))
         \<and> start (read_more s1) = start s1 \<and> buf_len (read_more s1) = buf_len s1
         \<and> (err s1 = None \<longrightarrow> err (read_more s1) \<noteq> None
              \<longrightarrow> start s1 + length (buffered s1) < buf_len s1
              \<longrightarrow> pending (reader (read_more s1)) = [] \<and> err (read_more s1) = Some EOF)"
    using read_more_props[of s1] ..
  then have c: "buffered (read_more s1) = buffered s1 @ chunk"
    "pending (reader s1) = chunk @ pending (reader (read_more s1))"
    "length chunk \<le> buf_len s1 - (start s1 + length (buffered s1))"
    "start (read_more s1) = start s1" "buf_len (read_more s1) = buf_len s1"
    "err s1 = None \<longrightarrow> err (read_more s1) \<noteq> None
              \<longrightarrow> start s1 + length (buffered s1) < buf_len s1
              \<longrightarrow> pending (reader (read_more s1)) = [] \<and> err (read_more s1) = Some EOF"
    by simp_all
  show ?thesis
  proof (intro exI[of _ chunk] conjI impI)
    show "buffered s' = buffered s @ chunk" using c(1) s1 s' by simp
    show "pending (reader s) = chunk @ pending (reader s')" using c(2) s1 s' by simp
    show "scanner_inv s'" if "scanner_inv s"
      using room[OF that] c s' by (simp add: scanner_inv_def)
    show "pending (reader s') = []" "err s' = Some EOF"
      if "scanner_inv s" "err s = None" "err s' \<noteq> None"
      using room[OF that(1)] c(6) s1 s' that by simp_all
  qed
qed

lemma read_more_buf_len: "buf_len (read_more s) = buf_len s"
  by (cases "Read (reader s) (buf_len s - (start s + length (buffered s)))")
     (simp add: read_more_def Let_def)

lemma fill_buf_len:
  assumes "fill s = Inr s'" "buf_len s \<le> MaxScanTokenSize"
  shows "buf_len s' \<le> MaxScanTokenSize"
proof -
  define s0 where "s0 = (if start s > 0 \<and>
                  (start s + length (buffered s) = buf_len s \<or> start s > buf_len s div 2)
               then s\<lparr>start := 0\<rparr> else s)"
  have "buf_len s0 = buf_len s" by (simp add: s0_def)
  moreover have "s' = read_more s0
      \<or> s' = read_more (s0\<lparr>buf_len := min (if buf_len s0 * 2 = 0 then startBufSize else buf_len s0 * 2) MaxScanTokenSize, start := 0\<rparr>)"
    using assms(1) unfolding fill_def s0_def[symmetric] Let_def
    by (simp split: if_splits)
  ultimately show ?thesis using assms(2) by (auto simp: read_more_buf_len)
qed

lemma fill_TooLong:
  assumes "fill s = Inl e"
  shows "MaxScanTokenSize \<le> length (buffered s)" "e = ErrTooLong"
  using assms by (auto simp: fill_def Let_def split: if_splits)

lemma Scan_turn_no_eof:
  assumes "err s = None"
  shows "Scan_turn s =
     (if buffered s = [] then (case fill s of Inl e \<Rightarrow> Stop (Some e) | Inr s' \<Rightarrow> More s')
      else (case SplitLines (buffered s) False of
              (advance, Some t, x) \<Rightarrow>
                 Token t (s\<lparr>start := start s + advance, buffered := drop advance (buffered s)\<rparr>)
            | (advance, None, x) \<Rightarrow>
                (case fill s of Inl e \<Rightarrow> Stop (Some e) | Inr s' \<Rightarrow> More s')))"
proof (cases "buffered s = []")
  case True
  then show ?thesis using assms by (simp add: Scan_turn_def)
next
  case False
  obtain advance token x where S: "SplitLines (buffered s) False = (advance, token, x)"
    by (cases "SplitLines (buffered s) False") auto
  from SplitLines_result[OF S] have x: "x = None" by (cases x) auto
  show ?thesis
  proof (cases token)
    case None
    with SplitLines_result[OF S] x have "advance = 0" by simp
    then show ?thesis using False assms S x None by (simp add: Scan_turn_def)
  next
    case (Some t)
    with SplitLines_result[OF S] x have "advance \<le> length (buffered s)" by simp
    then show ?thesis using False assms S x Some by (simp add: Scan_turn_def)
  qed
qed

lemma Scan_turn_eof:
  assumes "err s \<noteq> None"
  shows "Scan_turn s =
     (case SplitLines (buffered s) True of
        (advance, Some t, None) \<Rightarrow>
           Token t (s\<lparr>start := start s + advance, buffered := drop advance (buffered s)\<rparr>)
      | (advance, token, x) \<Rightarrow> if buffered s \<noteq> [] then Final token else Stop (err s))"
proof -
  obtain advance token x where S: "SplitLines (buffered s) True = (advance, token, x)"
    by (cases "SplitLines (buffered s) True") auto
  show ?thesis
  proof (cases x)
    case None
    with SplitLines_result[OF S] obtain t where "token = Some t" "advance \<le> length (buffered s)"
      by (cases token) auto
    then show ?thesis using assms S None by (simp add: Scan_turn_def)
  next
    case (Some e)
    with SplitLines_result[OF S] show ?thesis using assms S
      by (cases token) (auto simp: Scan_turn_def setErr_def split: if_splits)
  qed
qed

lemma Scan_turn_TokenD:
  assumes "Scan_turn s = Token t s'"
  shows "buffered s = t @ buffered s'" "t \<noteq> []" "reader s' = reader s" "err s' = err s"
    "scanner_inv s \<Longrightarrow> scanner_inv s'"
proof -
  obtain advance where S: "SplitLines (buffered s) (err s \<noteq> None) = (advance, Some t, None)"
    and s': "s' = s\<lparr>start := start s + advance, buffered := drop advance (buffered s)\<rparr>"
  proof (cases "err s = None")
    case True
    obtain advance tok x where S: "SplitLines (buffered s) False = (advance, tok, x)"
      by (cases "SplitLines (buffered s) False") auto
    from SplitLines_result[OF S] have "x = None" by (cases x) auto
    moreover have "tok = Some t"
      "s' = s\<lparr>start := start s + advance, buffered := drop advance (buffered s)\<rparr>"
      using Scan_turn_no_eof[OF True] assms S
      by (cases tok; simp split: if_splits sum.splits)+
    ultimately show ?thesis using that[of advance] S True by simp
  next
    case False
    obtain advance tok x where S: "SplitLines (buffered s) True = (advance, tok, x)"
      by (cases "SplitLines (buffered s) True") auto
    have "x = None \<and> tok = Some t
      \<and> s' = s\<lparr>start := start s + advance, buffered := drop advance (buffered s)\<rparr>"
      using Scan_turn_eof[OF False] assms S
      by (cases tok; cases x) (simp_all split: if_splits)
    then show ?thesis using that[of advance] S False by simp
  qed
  from SplitLines_result[OF S]
  have a: "0 < advance \<and> advance \<le> length (buffered s) \<and> t = take advance (buffered s)"
    by simp
  show "buffered s = t @ buffered s'" using a s' by simp
  show "t \<noteq> []" using a by auto
  show "reader s' = reader s" "err s' = err s" using s' by simp_all
  show "scanner_inv s \<Longrightarrow> scanner_inv s'" using a s' by (simp add: scanner_inv_def)
qed

lemma Scan_turn_FinalD:
  assumes "Scan_turn s = Final token"
  shows "token = Some (buffered s)" "buffered s \<noteq> []" "err s \<noteq> None"
proof -
  show e: "err s \<noteq> None"
  proof
    assume "err s = None"
    from Scan_turn_no_eof[OF this] assms show False
      by (auto split: prod.splits option.splits if_splits sum.splits)
  qed
  obtain advance tok x where S: "SplitLines (buffered s) True = (advance, tok, x)"
    by (cases "SplitLines (buffered s) True") auto
  have "buffered s \<noteq> [] \<and> tok = token"
    using Scan_turn_eof[OF e] assms S
    by (cases tok; cases x) (simp_all split: if_splits)
  moreover have "x \<noteq> None"
    using Scan_turn_eof[OF e] assms S SplitLines_result[OF S]
    by (cases tok; cases x) (simp_all split: if_splits)
  ultimately show "token = Some (buffered s)" "buffered s \<noteq> []"
    using SplitLines_result[OF S] by (auto split: if_splits)
qed

lemma Scan_turn_MoreD:
  assumes "Scan_turn s = More s'"
  shows "err s = None"
    "\<exists>chunk. buffered s' = buffered s @ chunk
         \<and> pending (reader s) = chunk @ pending (reader s')
         \<and> (scanner_inv s \<longrightarrow> scanner_inv s')
         \<and> (scanner_inv s \<longrightarrow> err s' \<noteq> None
              \<longrightarrow> pending (reader s') = [] \<and> err s' = Some EOF)"
proof -
  show e: "err s = None"
  proof (rule ccontr)
    assume "err s \<noteq> None"
    from Scan_turn_eof[OF this] assms show False
      by (auto split: prod.splits option.splits if_splits)
  qed
  have "fill s = Inr s'"
    using assms Scan_turn_no_eof[OF e]
    by (auto split: prod.splits option.splits if_splits sum.splits)
  from fill_props[OF this] e
  show "\<exists>chunk. buffered s' = buffered s @ chunk
         \<and> pending (reader s) = chunk @ pending (reader s')
         \<and> (scanner_inv s \<longrightarrow> scanner_inv s')
         \<and> (scanner_inv s \<longrightarrow> err s' \<noteq> None
              \<longrightarrow> pending (reader s') = [] \<and> err s' = Some EOF)"
    by blast
qed

lemma Scan_turn_StopD:
  assumes "Scan_turn s = Stop e"
  shows "(err s \<noteq> None \<and> buffered s = [] \<and> e = err s)
       \<or> (err s = None \<and> MaxScanTokenSize \<le> length (buffered s) \<and> e = Some ErrTooLong)"
proof (cases "err s = None")
  case True
  from Scan_turn_no_eof[OF True] assms obtain e' where "fill s = Inl e'" "e = Some e'"
    by (auto split: prod.splits option.splits if_splits sum.splits)
  with fill_TooLong[of s e'] True show ?thesis by simp
next
  case False
  from Scan_turn_eof[OF False] assms False show ?thesis
    by (auto split: prod.splits option.splits if_splits)
qed

section \<open>The records of a stream\<close>

text \<open>The records are consecutive pieces of the stream, in order, whatever the reader
  hands over at each call.\<close>

lemma Scan_tokens_prefix:
  "prefix (concat (Scan_tokens s)) (buffered s @ pending (reader s))"
proof (induction s rule: Scan_tokens.induct)
  case (1 s)
  show ?case
  proof (cases "Scan_turn s")
    case (Token t s')
    from Scan_turn_TokenD[OF Token] "1.IH"(1)[OF Token] show ?thesis
      by (subst Scan_tokens.simps) (simp add: Token)
  next
    case (Final token)
    from Scan_turn_FinalD[OF Final] show ?thesis
      by (subst Scan_tokens.simps) (simp add: Final)
  next
    case (Stop e)
    then show ?thesis by (subst Scan_tokens.simps) simp
  next
    case (More s')
    from Scan_turn_MoreD(2)[OF More] obtain chunk where
      "buffered s' = buffered s @ chunk" "pending (reader s) = chunk @ pending (reader s')"
      by blast
    with "1.IH"(2)[OF More] show ?thesis
      by (subst Scan_tokens.simps) (simp add: More)
  qed
qed

lemma Scan_tokens_nonempty:
  "t \<in> set (Scan_tokens s) \<Longrightarrow> t \<noteq> []"
proof (induction s rule: Scan_tokens.induct)
  case (1 s)
  show ?case
  proof (cases "Scan_turn s")
    case (Token t' s')
    from "1.prems" have "t = t' \<or> t \<in> set (Scan_tokens s')"
      by (subst (asm) Scan_tokens.simps) (simp add: Token)
    with Scan_turn_TokenD(2)[OF Token] "1.IH"(1)[OF Token] show ?thesis by blast
  next
    case (Final token)
    from "1.prems" Scan_turn_FinalD[OF Final] show ?thesis
      by (subst (asm) Scan_tokens.simps) (simp add: Final)
  next
    case (Stop e)
    with "1.prems" show ?thesis by (subst (asm) Scan_tokens.simps) simp
  next
    case (More s')
    from "1.prems" have "t \<in> set (Scan_tokens s')"
      by (subst (asm) Scan_tokens.simps) (simp add: More)
    with "1.IH"(2)[OF More] show ?thesis .
  qed
qed

text \<open>A buffer without terminator makes \<open>SplitLines\<close> ask for more before the end of
  the stream.\<close>

lemma SplitLines_loop_no_eol:
  assumes "\<forall>c \<in> set d. \<not> is_eol c" "\<not> atEOF"
  shows "SplitLines_loop d atEOF i = (0, None, None)"
  using assms
proof (induction d atEOF i rule: SplitLines_loop.induct)
  case (1 d atEOF i)
  show ?case
  proof (cases "i < length d")
    case True
    then have "\<not> is_eol (d ! i)" using "1.prems" by simp
    then have ne: "d ! i \<noteq> cr" "d ! i \<noteq> lf" by (auto simp: is_eol_def)
    with True "1.IH"[OF True ne(1) ne(2) "1.prems"] show ?thesis
      by (subst SplitLines_loop.simps) simp
  next
    case False
    then show ?thesis using "1.prems"(2) by (subst SplitLines_loop.simps) simp
  qed
qed

text \<open>As long as \<open>SplitLines\<close> asks for more on every buffer the scanner can come to hold,
  a stream longer than \<open>MaxScanTokenSize\<close> gives no record.\<close>

lemma Scan_tokens_no_record:
  assumes "\<forall>d. prefix (buffered s) d \<and> prefix d (buffered s @ pending (reader s)) \<and> d \<noteq> []
             \<longrightarrow> SplitLines d False = (0, None, None)"
    "err s = None" "scanner_inv s" "buf_len s \<le> MaxScanTokenSize"
    "MaxScanTokenSize < length (buffered s) + length (pending (reader s))"
  shows "Scan_tokens s = []"
  using assms
proof (induction s rule: Scan_tokens.induct)
  case (1 s)
  have S: "buffered s \<noteq> [] \<Longrightarrow> SplitLines (buffered s) False = (0, None, None)"
    using "1.prems"(1) by simp
  have turn: "Scan_turn s = (case fill s of Inl e \<Rightarrow> Stop (Some e) | Inr s' \<Rightarrow> More s')"
    using Scan_turn_no_eof[OF "1.prems"(2)] S by (cases "buffered s = []") simp_all
  show ?case
  proof (cases "fill s")
    case (Inl e)
    then show ?thesis using turn by (subst Scan_tokens.simps) simp
  next
    case (Inr s')
    then have More: "Scan_turn s = More s'" using turn by simp
    from Scan_turn_MoreD(2)[OF More] obtain chunk where c:
      "buffered s' = buffered s @ chunk" "pending (reader s) = chunk @ pending (reader s')"
      "scanner_inv s \<longrightarrow> scanner_inv s'"
      "scanner_inv s \<longrightarrow> err s' \<noteq> None \<longrightarrow> pending (reader s') = []"
      by blast
    have bl: "buf_len s' \<le> MaxScanTokenSize"
      using fill_buf_len[OF Inr "1.prems"(4)] .
    have inv': "scanner_inv s'" using c "1.prems" by simp
    then have "length (buffered s') \<le> MaxScanTokenSize"
      using bl by (simp add: scanner_inv_def)
    then have "pending (reader s') \<noteq> []" using c "1.prems"(5) by auto
    then have e': "err s' = None" using c(4) "1.prems"(3) by auto
    have stuck: "\<forall>d. prefix (buffered s') d \<and> prefix d (buffered s' @ pending (reader s')) \<and> d \<noteq> []
             \<longrightarrow> SplitLines d False = (0, None, None)"
    proof (intro allI impI, elim conjE)
      fix d assume d: "prefix (buffered s') d" "prefix d (buffered s' @ pending (reader s'))" "d \<noteq> []"
      have "prefix (buffered s) d" using d(1) c(1) by (auto simp: prefix_def)
      moreover have "prefix d (buffered s @ pending (reader s))" using d(2) c(1,2) by simp
      ultimately show "SplitLines d False = (0, None, None)" using "1.prems"(1) d(3) by blast
    qed
    have "Scan_tokens s' = []"
      using "1.IH"(2)[OF More stuck e' inv' bl] c "1.prems"(5) by simp
    then show ?thesis using More by (subst Scan_tokens.simps) simp
  qed
qed

lemma Scan_tokens_too_long:
  assumes "\<forall>c \<in> set (buffered s @ pending (reader s)). \<not> is_eol c"
    "err s = None" "scanner_inv s" "buf_len s \<le> MaxScanTokenSize"
    "MaxScanTokenSize < length (buffered s) + length (pending (reader s))"
  shows "Scan_tokens s = []"
proof (rule Scan_tokens_no_record[OF _ assms(2-5)], intro allI impI, elim conjE)
  fix d assume "prefix d (buffered s @ pending (reader s))"
  then have "set d \<subseteq> set (buffered s @ pending (reader s))" by (rule set_mono_prefix)
  then have "\<forall>c \<in> set d. \<not> is_eol c" using assms(1) by blast
  then show "SplitLines d False = (0, None, None)"
    by (simp add: SplitLines_def SplitLines_loop_no_eol)
qed

text \<open>A scan that does not stop with \<open>ErrTooLong\<close> has passed on every byte.\<close>

lemma Scan_stopped_concat:
  assumes "scanner_inv s" "err s \<noteq> None \<longrightarrow> pending (reader s) = []"
    "Scan_stopped s \<noteq> Some ErrTooLong"
  shows "concat (Scan_tokens s) = buffered s @ pending (reader s)"
  using assms
proof (induction s rule: Scan_tokens.induct)
  case (1 s)
  show ?case
  proof (cases "Scan_turn s")
    case (Token t s')
    note D = Scan_turn_TokenD[OF Token]
    have "Scan_stopped s' \<noteq> Some ErrTooLong"
      using "1.prems"(3) by (subst (asm) Scan_stopped.simps) (simp add: Token)
    then have "concat (Scan_tokens s') = buffered s' @ pending (reader s')"
      using "1.IH"(1)[OF Token] D "1.prems" by simp
    then show ?thesis using D
      by (subst Scan_tokens.simps) (simp add: Token)
  next
    case (Final token)
    from Scan_turn_FinalD[OF Final] "1.prems"(2) show ?thesis
      by (subst Scan_tokens.simps) (simp add: Final)
  next
    case (Stop e)
    have "e \<noteq> Some ErrTooLong"
      using "1.prems"(3) by (subst (asm) Scan_stopped.simps) (simp add: Stop)
    with Scan_turn_StopD[OF Stop] "1.prems"(2) show ?thesis
      by (subst Scan_tokens.simps) (auto simp: Stop)
  next
    case (More s')
    from Scan_turn_MoreD(2)[OF More] obtain chunk where c:
      "buffered s' = buffered s @ chunk" "pending (reader s) = chunk @ pending (reader s')"
      "scanner_inv s \<longrightarrow> scanner_inv s'"
      "scanner_inv s \<longrightarrow> err s' \<noteq> None \<longrightarrow> pending (reader s') = []"
      by blast
    have "Scan_stopped s' \<noteq> Some ErrTooLong"
      using "1.prems"(3) by (subst (asm) Scan_stopped.simps) (simp add: More)
    then have "concat (Scan_tokens s') = buffered s' @ pending (reader s')"
      using "1.IH"(2)[OF More] c "1.prems" by simp
    then show ?thesis using c
      by (subst Scan_tokens.simps) (simp add: More)
  qed
qed

text \<open>A stream shorter than \<open>MaxScanTokenSize\<close> is scanned to its end.\<close>

lemma Scan_stopped_small:
  assumes "scanner_inv s" "err s = None \<or> err s = Some EOF"
    "length (buffered s) + length (pending (reader s)) < MaxScanTokenSize"
  shows "Scan_stopped s = Some EOF"
  using assms
proof (induction s rule: Scan_tokens.induct)
  case (1 s)
  show ?case
  proof (cases "Scan_turn s")
    case (Token t s')
    note D = Scan_turn_TokenD[OF Token]
    have "Scan_stopped s' = Some EOF"
      using "1.IH"(1)[OF Token] D "1.prems" by simp
    then show ?thesis by (subst Scan_stopped.simps) (simp add: Token)
  next
    case (Final token)
    from Scan_turn_FinalD[OF Final] "1.prems"(2) show ?thesis
      by (subst Scan_stopped.simps) (auto simp: Final)
  next
    case (Stop e)
    from Scan_turn_StopD[OF Stop] "1.prems"(2,3) show ?thesis
      by (subst Scan_stopped.simps) (auto simp: Stop)
  next
    case (More s')
    from Scan_turn_MoreD(2)[OF More] obtain chunk where c:
      "buffered s' = buffered s @ chunk" "pending (reader s) = chunk @ pending (reader s')"
      "scanner_inv s \<longrightarrow> scanner_inv s'"
      "scanner_inv s \<longrightarrow> err s' \<noteq> None \<longrightarrow> pending (reader s') = [] \<and> err s' = Some EOF"
      by blast
    have "Scan_stopped s' = Some EOF"
      using "1.IH"(2)[OF More] c "1.prems" by auto
    then show ?thesis by (subst Scan_stopped.simps) (simp add: More)
  qed
qed

lemma ReadLines_sc_Err_concat:
  assumes "ReadLines_sc_Err rd = None"
  shows "concat (Scan_tokens (NewScanner rd)) = pending rd"
proof -
  have "Scan_stopped (NewScanner rd) \<noteq> Some ErrTooLong"
    using assms by (auto simp: ReadLines_sc_Err_def Scan_Err_def split: if_splits)
  from Scan_stopped_concat[OF _ _ this] show ?thesis
    by (simp add: NewScanner_def scanner_inv_def)
qed

lemma ReadLines_sc_Err_small:
  assumes "length (pending rd) < MaxScanTokenSize"
  shows "ReadLines_sc_Err rd = None"
  using Scan_stopped_small[of "NewScanner rd"] assms
  by (simp add: ReadLines_sc_Err_def Scan_Err_def NewScanner_def scanner_inv_def)

text \<open>And a scan that has met nothing but bytes without terminator, \<open>MaxScanTokenSize\<close>
  of them and more to come, stops with \<open>ErrTooLong\<close>.\<close>

lemma Scan_stopped_no_record:
  assumes "\<forall>d. prefix (buffered s) d \<and> prefix d (buffered s @ pending (reader s)) \<and> d \<noteq> []
             \<longrightarrow> SplitLines d False = (0, None, None)"
    "err s = None" "scanner_inv s" "buf_len s \<le> MaxScanTokenSize"
    "MaxScanTokenSize < length (buffered s) + length (pending (reader s))"
  shows "Scan_stopped s = Some ErrTooLong"
  using assms
proof (induction s rule: Scan_tokens.induct)
  case (1 s)
  have S: "buffered s \<noteq> [] \<Longrightarrow> SplitLines (buffered s) False = (0, None, None)"
    using "1.prems"(1) by simp
  have turn: "Scan_turn s = (case fill s of Inl e \<Rightarrow> Stop (Some e) | Inr s' \<Rightarrow> More s')"
    using Scan_turn_no_eof[OF "1.prems"(2)] S by (cases "buffered s = []") simp_all
  show ?case
  proof (cases "fill s")
    case (Inl e)
    with fill_TooLong(2)[OF Inl] show ?thesis using turn by (subst Scan_stopped.simps) simp
  next
    case (Inr s')
    then have More: "Scan_turn s = More s'" using turn by simp
    from Scan_turn_MoreD(2)[OF More] obtain chunk where c:
      "buffered s' = buffered s @ chunk" "pending (reader s) = chunk @ pending (reader s')"
      "scanner_inv s \<longrightarrow> scanner_inv s'"
      "scanner_inv s \<longrightarrow> err s' \<noteq> None \<longrightarrow> pending (reader s') = []"
      by blast
    have bl: "buf_len s' \<le> MaxScanTokenSize"
      using fill_buf_len[OF Inr "1.prems"(4)] .
    have inv': "scanner_inv s'" using c "1.prems" by simp
    then have "length (buffered s') \<le> MaxScanTokenSize"
      using bl by (simp add: scanner_inv_def)
    then have "pending (reader s') \<noteq> []" using c "1.prems"(5) by auto
    then have e': "err s' = None" using c(4) "1.prems"(3) by auto
    have stuck: "\<forall>d. prefix (buffered s') d \<and> prefix d (buffered s' @ pending (reader s')) \<and> d \<noteq> []
             \<longrightarrow> SplitLines d False = (0, None, None)"
    proof (intro allI impI, elim conjE)
      fix d assume d: "prefix (buffered s') d" "prefix d (buffered s' @ pending (reader s'))" "d \<noteq> []"
      have "prefix (buffered s) d" using d(1) c(1) by (auto simp: prefix_def)
      moreover have "prefix d (buffered s @ pending (reader s))" using d(2) c(1,2) by simp
      ultimately show "SplitLines d False = (0, None, None)" using "1.prems"(1) d(3) by blast
    qed
    have "Scan_stopped s' = Some ErrTooLong"
      using "1.IH"(2)[OF More stuck e' inv' bl] c "1.prems"(5) by simp
    then show ?thesis using More by (subst Scan_stopped.simps) simp
  qed
qed

section \<open>ReadLines\<close>

lemma ReadLines_loop_lines:
  "map (fst \<circ> snd) (ReadLines_loop ls fileSize read i) = ls"
  by (induction ls arbitrary: read i) (simp_all add: Let_def)

lemma ReadLines_loop_length:
  "length (ReadLines_loop ls fileSize read i) = length ls"
  by (induction ls arbitrary: read i) (simp_all add: Let_def)

lemma ReadLines_loop_index:
  "map fst (ReadLines_loop ls fileSize read i) = map (\<lambda>k. i + int k) [0..<length ls]"
proof (induction ls arbitrary: read i)
  case Nil
  then show ?case by simp
next
  case (Cons l ls)
  have "map (\<lambda>k. i + int k) [0..<length (l # ls)]
      = i # map (\<lambda>k. i + int k) (map Suc [0..<length ls])"
    by (simp add: upt_conv_Cons map_Suc_upt del: upt_Suc)
  also have "\<dots> = i # map (\<lambda>k. (i + 1) + int k) [0..<length ls]"
    by (simp add: comp_def add.assoc)
  finally show ?case using Cons.IH[of _ "i + 1"] by (simp add: Let_def)
qed

lemma ReadLines_loop_final:
  assumes "k < length ls"
  shows "snd (snd (ReadLines_loop ls fileSize read i ! k))
       = (read + int (length (concat (take (Suc k) ls))) = fileSize)"
  using assms
proof (induction ls arbitrary: read i k)
  case Nil
  then show ?case by simp
next
  case (Cons l ls)
  show ?case
  proof (cases k)
    case 0
    then show ?thesis by (simp add: Let_def)
  next
    case (Suc j)
    with Cons.prems have "j < length ls" by simp
    from Cons.IH[OF this, of "read + int (length l)" "i + 1"] Suc show ?thesis
      by (simp add: Let_def add.assoc)
  qed
qed

lemma ReadLines_loop_flags:
  assumes "\<forall>l \<in> set ls. l \<noteq> []" "ls \<noteq> []"
    "read + int (length (concat ls)) = fileSize"
  shows "map (snd \<circ> snd) (ReadLines_loop ls fileSize read i)
       = replicate (length ls - 1) False @ [True]"
  using assms
proof (induction ls arbitrary: read i)
  case Nil
  then show ?case by simp
next
  case (Cons l ls)
  show ?case
  proof (cases "ls = []")
    case True
    with Cons.prems show ?thesis by (simp add: Let_def)
  next
    case False
    then obtain l' ls' where ls: "ls = l' # ls'" by (cases ls) auto
    with Cons.prems(1) have "l' \<noteq> []" by simp
    then have "0 < length l'" by simp
    then have pos: "0 < int (length l') + int (length (concat ls'))" by linarith
    have "read + int (length l) + (int (length l') + int (length (concat ls'))) = fileSize"
      using Cons.prems(3) ls by simp
    with pos have ne: "read + int (length l) \<noteq> fileSize" by linarith
    have "map (snd \<circ> snd) (ReadLines_loop ls fileSize (read + int (length l)) (i + 1))
        = replicate (length ls - 1) False @ [True]"
    proof (rule Cons.IH)
      show "\<forall>l \<in> set ls. l \<noteq> []" using Cons.prems(1) by simp
      show "ls \<noteq> []" by fact
      show "read + int (length l) + int (length (concat ls)) = fileSize"
        using Cons.prems(3) by simp
    qed
    then show ?thesis using ne False
      by (cases ls) (simp_all add: Let_def comp_def)
  qed
qed

text \<open>
  What holds for every stream and every way the reader hands it over: the records
  concatenated are a prefix of the stream (no byte is added, duplicated or reordered);
  they are the whole stream whenever the scanner has come to the end of the stream
  (\<open>sc.Err()\<close> is nil after the loop); and it has whenever the stream is shorter than
  \<open>MaxScanTokenSize\<close> (64 KiB).
\<close>

lemma ReadLines_calls_concat:
  "prefix (concat (map (fst \<circ> snd) (ReadLines_calls rd fileSize))) (pending rd)
 \<and> (ReadLines_sc_Err rd = None
      \<longrightarrow> concat (map (fst \<circ> snd) (ReadLines_calls rd fileSize)) = pending rd)
 \<and> (length (pending rd) < MaxScanTokenSize \<longrightarrow> ReadLines_sc_Err rd = None)"
  using Scan_tokens_prefix[of "NewScanner rd"] ReadLines_sc_Err_concat[of rd]
    ReadLines_sc_Err_small[of rd]
  by (simp add: ReadLines_calls_def ReadLines_loop_lines NewScanner_def)

text \<open>A line of 65537 bytes without terminator, from a reader that fills every slice:
  the scanner ends in \<open>ErrTooLong\<close> and \<open>ReadLines\<close> passes no record on.\<close>

lemma ReadLines_calls_long_line:
  "ReadLines_sc_Err
      \<lparr>pending = replicate 65537 (CHR ''a''), sizes = [], eof_with_data = False\<rparr>
    = Some ErrTooLong
 \<and> concat (map (fst \<circ> snd) (ReadLines_calls
      \<lparr>pending = replicate 65537 (CHR ''a''), sizes = [], eof_with_data = False\<rparr> 65537))
    \<noteq> replicate 65537 (CHR ''a'')"
proof -
  have no_eol: "\<forall>c \<in> set (replicate 65537 (CHR ''a'')). \<not> is_eol c"
    by (simp add: is_eol_def cr_def lf_def)
  have "Scan_tokens (NewScanner
      \<lparr>pending = replicate 65537 (CHR ''a''), sizes = [], eof_with_data = False\<rparr>) = []"
    by (rule Scan_tokens_too_long)
       (simp_all add: NewScanner_def scanner_inv_def MaxScanTokenSize_def is_eol_def cr_def lf_def)
  moreover have "Scan_stopped (NewScanner
      \<lparr>pending = replicate 65537 (CHR ''a''), sizes = [], eof_with_data = False\<rparr>)
      = Some ErrTooLong"
  proof (rule Scan_stopped_no_record, intro allI impI, elim conjE)
    fix d
    assume "prefix d (buffered (NewScanner
        \<lparr>pending = replicate 65537 (CHR ''a''), sizes = [], eof_with_data = False\<rparr>)
      @ pending (reader (NewScanner
        \<lparr>pending = replicate 65537 (CHR ''a''), sizes = [], eof_with_data = False\<rparr>)))"
    then have "prefix d (replicate 65537 (CHR ''a''))" by (simp add: NewScanner_def)
    then have "set d \<subseteq> set (replicate 65537 (CHR ''a''))" by (rule set_mono_prefix)
    then have "\<forall>c \<in> set d. \<not> is_eol c" using no_eol by blast
    then show "SplitLines d False = (0, None, None)"
      by (simp add: SplitLines_def SplitLines_loop_no_eol)
  qed (simp_all add: NewScanner_def scanner_inv_def MaxScanTokenSize_def)
  ultimately show ?thesis
    by (simp add: ReadLines_calls_def ReadLines_sc_Err_def Scan_Err_def)
qed

text \<open>
  The calls of \<open>fn\<close> for a non-empty stream whose declared size is its byte count and
  that the scanner reads to its end (\<open>sc.Err()\<close> is nil after the loop, as it is for
  every stream shorter than \<open>MaxScanTokenSize\<close>), whatever way the reader hands it over:
  there is at least one record, the records are numbered from 0 upwards, the last
  record and no other is flagged, and a record is flagged exactly when the bytes of
  the records up to it make up the declared size.
\<close>

lemma ReadLines_calls_final:
  assumes "pending rd \<noteq> []" "ReadLines_sc_Err rd = None"
    "fileSize = int (length (pending rd))"
  shows "ReadLines_calls rd fileSize \<noteq> []
       \<and> map fst (ReadLines_calls rd fileSize)
           = map int [0..<length (ReadLines_calls rd fileSize)]
       \<and> map (snd \<circ> snd) (ReadLines_calls rd fileSize)
           = replicate (length (ReadLines_calls rd fileSize) - 1) False @ [True]
       \<and> (\<forall>k < length (ReadLines_calls rd fileSize).
             snd (snd (ReadLines_calls rd fileSize ! k))
           = (int (length (concat (map (fst \<circ> snd) (take (Suc k) (ReadLines_calls rd fileSize)))))
               = fileSize))"
proof -
  define ls where "ls = Scan_tokens (NewScanner rd)"
  have calls: "ReadLines_calls rd fileSize = ReadLines_loop ls fileSize 0 0"
    by (simp add: ReadLines_calls_def ls_def)
  have cat: "concat ls = pending rd"
    unfolding ls_def by (rule ReadLines_sc_Err_concat[OF assms(2)])
  then have ne: "ls \<noteq> []" using assms(1) by auto
  have nonempty: "\<forall>l \<in> set ls. l \<noteq> []"
    unfolding ls_def using Scan_tokens_nonempty by blast
  have len: "length (ReadLines_calls rd fileSize) = length ls"
    by (simp add: calls ReadLines_loop_length)
  have 1: "ReadLines_calls rd fileSize \<noteq> []"
    using ne len by auto
  have 2: "map fst (ReadLines_calls rd fileSize)
           = map int [0..<length (ReadLines_calls rd fileSize)]"
    using ReadLines_loop_index[of ls fileSize 0 0] by (simp add: calls ReadLines_loop_length)
  have 3: "map (snd \<circ> snd) (ReadLines_calls rd fileSize)
           = replicate (length (ReadLines_calls rd fileSize) - 1) False @ [True]"
  proof -
    have "0 + int (length (concat ls)) = fileSize" using cat assms(3) by simp
    from ReadLines_loop_flags[OF nonempty ne this, of 0] show ?thesis
      unfolding calls ReadLines_loop_length .
  qed
  have 4: "snd (snd (ReadLines_calls rd fileSize ! k))
           = (int (length (concat (map (fst \<circ> snd) (take (Suc k) (ReadLines_calls rd fileSize)))))
               = fileSize)"
    if "k < length (ReadLines_calls rd fileSize)" for k
  proof -
    have "map (fst \<circ> snd) (take (Suc k) (ReadLines_calls rd fileSize)) = take (Suc k) ls"
      by (simp add: calls take_map[symmetric] ReadLines_loop_lines del: take_Suc)
    then show ?thesis
      using ReadLines_loop_final[of k ls fileSize 0 0] that len by (simp add: calls)
  qed
  show ?thesis using 1 2 3 4 by blast
qed

text \<open>The empty stream, declared size 0: no record, so no record is flagged.\<close>

lemma Scan_tokens_empty_stream:
  assumes "pending rd = []"
  shows "Scan_tokens (NewScanner rd) = []"
proof (cases "Scan_tokens (NewScanner rd)")
  case Nil
  then show ?thesis .
next
  case (Cons t ts)
  have "prefix (concat (Scan_tokens (NewScanner rd))) []"
    using Scan_tokens_prefix[of "NewScanner rd"] assms by (simp add: NewScanner_def)
  then have "t = []" by (simp add: Cons)
  moreover have "t \<noteq> []"
    by (rule Scan_tokens_nonempty[of t "NewScanner rd"]) (simp add: Cons)
  ultimately show ?thesis by simp
qed

text \<open>No record is flagged for the empty stream, nor for a stream whose first record
  does not fit the scanner's buffer, which has no record either.\<close>

lemma ReadLines_calls_no_final:
  "filter (snd \<circ> snd)
     (ReadLines_calls \<lparr>pending = [], sizes = [], eof_with_data = False\<rparr> 0) = []
 \<and> filter (snd \<circ> snd)
     (ReadLines_calls
        \<lparr>pending = replicate 65537 (CHR ''a''), sizes = [], eof_with_data = False\<rparr> 65537) = []"
proof -
  have "Scan_tokens (NewScanner \<lparr>pending = [], sizes = [], eof_with_data = False\<rparr>) = []"
    by (rule Scan_tokens_empty_stream) simp
  moreover have "Scan_tokens (NewScanner
      \<lparr>pending = replicate 65537 (CHR ''a''), sizes = [], eof_with_data = False\<rparr>) = []"
    by (rule Scan_tokens_too_long)
       (simp_all add: NewScanner_def scanner_inv_def MaxScanTokenSize_def is_eol_def cr_def lf_def)
  ultimately show ?thesis by (simp add: ReadLines_calls_def)
qed

text \<open>A run of the model: a stream with the three terminators and a tail without one,
  from a reader whose first \<open>Read\<close> ends right after the first CR. That CR is returned
  as a terminator of its own and the LF after it as the next record.\<close>

lemma ReadLines_calls_example:
  "ReadLines_calls
      \<lparr>pending = ''ab'' @ [cr, lf] @ ''cd'' @ [cr] @ ''e'' @ [lf] @ ''xx'',
       sizes = [2, 0, 0, 0], eof_with_data = False\<rparr> 11
   = [(0, ''ab'' @ [cr], False), (1, [lf], False), (2, ''cd'' @ [cr], False),
      (3, ''e'' @ [lf], False), (4, ''xx'', True)]"
  by (simp add: ReadLines_calls_def NewScanner_def Scan_tokens.simps Scan_turn_def fill_def
      read_more_def Read_def SplitLines_def SplitLines_loop.simps startBufSize_def
      MaxScanTokenSize_def Let_def cr_def lf_def)

text \<open>A stream that starts with CR LF, longer than \<open>MaxScanTokenSize\<close>, from a reader that
  fills every slice: \<open>SplitLines\<close> asks for more on every buffer, since a byte follows
  the CR, and no record at all comes out.\<close>

lemma SplitLines_cr_followed:
  "SplitLines (cr # c # post) False = (0, None, None)"
  using SplitLines_first_eol[of "[]" cr "c # post" False]
  by (simp add: SplitLines_loop.simps)

lemma ReadLines_calls_crlf_lost:
  "ReadLines_calls
     \<lparr>pending = [cr, lf] @ replicate 65536 (CHR ''a''), sizes = [], eof_with_data = False\<rparr>
     fileSize = []"
proof -
  define s1 where "s1 = \<lparr>reader = \<lparr>pending = replicate 61442 (CHR ''a''), sizes = [],
      eof_with_data = False\<rparr>, buf_len = 4096, start = 0,
      buffered = [cr, lf] @ replicate 4094 (CHR ''a''), err = None\<rparr>"
  have t: "Scan_turn (NewScanner
      \<lparr>pending = [cr, lf] @ replicate 65536 (CHR ''a''), sizes = [], eof_with_data = False\<rparr>)
      = More s1"
    by (simp add: NewScanner_def Scan_turn_def fill_def read_more_def Read_def startBufSize_def
        MaxScanTokenSize_def Let_def s1_def)
  have "Scan_tokens s1 = []"
  proof (rule Scan_tokens_no_record, intro allI impI, elim conjE)
    fix d assume "prefix (buffered s1) d"
    then obtain post where "d = cr # lf # post" by (auto simp: prefix_def s1_def)
    then show "SplitLines d False = (0, None, None)" by (simp add: SplitLines_cr_followed)
  qed (simp_all add: s1_def scanner_inv_def MaxScanTokenSize_def)
  then have "Scan_tokens (NewScanner
      \<lparr>pending = [cr, lf] @ replicate 65536 (CHR ''a''), sizes = [], eof_with_data = False\<rparr>) = []"
    using t by (subst Scan_tokens.simps) simp
  then show ?thesis by (simp add: ReadLines_calls_def)
qed

section \<open>ReadLines on a long stream with CR LF line ends\<close>

text \<open>The first turn of a scan: the buffer is allocated with \<open>startBufSize\<close> bytes and
  one \<open>Read\<close> goes into it.\<close>

lemma Scan_turn_first_read:
  assumes R: "Read rd startBufSize = (chunk, e, rd')" and ne: "pending rd' \<noteq> []"
  shows "Scan_turn (NewScanner rd)
       = More \<lparr>reader = rd', buf_len = startBufSize, start = 0, buffered = chunk, err = None\<rparr>"
proof -
  note C = Read_chunk[OF R]
  have e: "e = None" using C(3) ne by blast
  have c: "chunk \<noteq> []" using C(4)[OF e] by (auto simp: startBufSize_def)
  have "fill (NewScanner rd)
      = Inr \<lparr>reader = rd', buf_len = startBufSize, start = 0, buffered = chunk, err = None\<rparr>"
    using e c R
    by (simp add: fill_def read_more_def NewScanner_def Let_def startBufSize_def
        MaxScanTokenSize_def)
  then show ?thesis
    using Scan_turn_no_eof[of "NewScanner rd"] by (simp add: NewScanner_def)
qed

lemma prefix_cr_followed:
  assumes "prefix d (pre @ cr # c # post)" "length pre + 2 \<le> length d"
  shows "\<exists>post'. d = pre @ cr # c # post'"
proof -
  from assms(1) have "d = take (length d) (pre @ cr # c # post)"
    by (metis append_eq_conv_conj prefix_def)
  also have "\<dots> = pre @ cr # c # take (length d - length pre - 2) post"
    using assms(2) by (simp add: take_Cons')
  finally show ?thesis by blast
qed

lemma SplitLines_first_cr_followed:
  assumes "\<forall>x \<in> set pre. \<not> is_eol x"
  shows "SplitLines (pre @ cr # c # post) False = (0, None, None)"
  by (subst SplitLines_first_eol[OF assms], subst SplitLines_loop.simps) simp

lemma Scan_crlf_stream:
  assumes p: "pending rd = pre @ cr # c # post" and pre: "\<forall>x \<in> set pre. \<not> is_eol x"
    and first: "length pre + 2 \<le> length (fst (Read rd startBufSize))"
    and long: "MaxScanTokenSize < length (pending rd)"
  shows "Scan_tokens (NewScanner rd) = []" "Scan_stopped (NewScanner rd) = Some ErrTooLong"
proof -
  obtain chunk e rd' where R: "Read rd startBufSize = (chunk, e, rd')"
    by (cases "Read rd startBufSize") auto
  note C = Read_chunk[OF R]
  define s1 where
    "s1 = \<lparr>reader = rd', buf_len = startBufSize, start = 0, buffered = chunk, err = None\<rparr>"
  have len: "length (pending rd) = length chunk + length (pending rd')"
    using C(1) by simp
  then have ne: "pending rd' \<noteq> []"
    using C(2) long by (auto simp: startBufSize_def MaxScanTokenSize_def)
  have turn: "Scan_turn (NewScanner rd) = More s1"
    unfolding s1_def by (rule Scan_turn_first_read[OF R ne])
  have stuck: "\<forall>d. prefix (buffered s1) d \<and> prefix d (buffered s1 @ pending (reader s1)) \<and> d \<noteq> []
             \<longrightarrow> SplitLines d False = (0, None, None)"
  proof (intro allI impI, elim conjE)
    fix d assume d: "prefix (buffered s1) d" "prefix d (buffered s1 @ pending (reader s1))"
    from d(1) have "length chunk \<le> length d" by (simp add: s1_def prefix_length_le)
    then have "length pre + 2 \<le> length d" using first R by simp
    moreover have "prefix d (pre @ cr # c # post)" using d(2) C(1) p by (simp add: s1_def)
    ultimately obtain post' where "d = pre @ cr # c # post'"
      using prefix_cr_followed by blast
    then show "SplitLines d False = (0, None, None)"
      using SplitLines_first_cr_followed[OF pre] by simp
  qed
  have e1: "err s1 = None" by (simp add: s1_def)
  have inv: "scanner_inv s1" using C(2) by (simp add: s1_def scanner_inv_def)
  have bl: "buf_len s1 \<le> MaxScanTokenSize"
    by (simp add: s1_def startBufSize_def MaxScanTokenSize_def)
  have long1: "MaxScanTokenSize < length (buffered s1) + length (pending (reader s1))"
    using long len by (simp add: s1_def)
  have "Scan_tokens s1 = []"
    by (rule Scan_tokens_no_record[OF stuck e1 inv bl long1])
  then show "Scan_tokens (NewScanner rd) = []"
    using turn by (subst Scan_tokens.simps) simp
  have "Scan_stopped s1 = Some ErrTooLong"
    by (rule Scan_stopped_no_record[OF stuck e1 inv bl long1])
  then show "Scan_stopped (NewScanner rd) = Some ErrTooLong"
    using turn by (subst Scan_stopped.simps) simp
qed

lemma concat_replicate_Suc:
  "concat (replicate (Suc n) xs) = xs @ concat (replicate n xs)"
  by simp

lemma length_concat_replicate:
  "length (concat (replicate n xs)) = n * length xs"
  by (induction n) simp_all

text \<open>
  C2. The claim: for every byte sequence, the records that \<open>ReadLines\<close> passes on,
  concatenated in order, are the sequence again, for every mix of CR, LF and CRLF
  terminators. The code loses whole streams. Take a stream of more than
  \<open>MaxScanTokenSize\<close> bytes (64 KiB) whose first terminator is a CR with a byte after it
  (the LF of a text with CRLF line ends), and a reader whose first \<open>Read\<close> delivers
  that CR and the byte after it. Before the end of the stream \<open>SplitLines\<close> answers a
  CR that a byte follows with a request for more data (\<open>i < len(data) && !atEOF\<close>), on
  every buffer the scanner comes to hold; the scanner grows its buffer to
  \<open>MaxScanTokenSize\<close> and stops with \<open>ErrTooLong\<close>, which \<open>ReadLines\<close> does not read. So
  \<open>fn\<close> is not called once, every byte of the stream is dropped, and \<open>ReadLines\<close>
  returns no error, whatever \<open>fn\<close> answers.
\<close>

theorem ReadLines_crlf_stream_lost:
  assumes "pending rd = pre @ cr # c # post" "\<forall>x \<in> set pre. \<not> is_eol x"
    "length pre + 2 \<le> length (fst (Read rd startBufSize))"
    "MaxScanTokenSize < length (pending rd)"
  shows "ReadLines_calls rd fileSize = []
       \<and> concat (map (fst \<circ> snd) (ReadLines_calls rd fileSize)) \<noteq> pending rd
       \<and> ReadLines_sc_Err rd = Some ErrTooLong
       \<and> ReadLines rd fileSize fn = []"
  using Scan_crlf_stream[OF assms] assms(1)
  by (simp add: ReadLines_def ReadLines_calls_def ReadLines_sc_Err_def Scan_Err_def
      List.map_filter_simps)

theorem ReadLines_crlf_stream_lost_witness:
  "concat (replicate 13108 (''abc'' @ [cr, lf]))
     = ''abc'' @ cr # lf # concat (replicate 13107 (''abc'' @ [cr, lf]))
 \<and> length (concat (replicate 13108 (''abc'' @ [cr, lf]))) = 65540
 \<and> ReadLines_calls
      \<lparr>pending = concat (replicate 13108 (''abc'' @ [cr, lf])), sizes = [],
        eof_with_data = False\<rparr> 65540 = []
 \<and> concat (map (fst \<circ> snd) (ReadLines_calls
      \<lparr>pending = concat (replicate 13108 (''abc'' @ [cr, lf])), sizes = [],
        eof_with_data = False\<rparr> 65540))
    \<noteq> concat (replicate 13108 (''abc'' @ [cr, lf]))
 \<and> ReadLines_sc_Err
      \<lparr>pending = concat (replicate 13108 (''abc'' @ [cr, lf])), sizes = [],
        eof_with_data = False\<rparr> = Some ErrTooLong
 \<and> ReadLines
      \<lparr>pending = concat (replicate 13108 (''abc'' @ [cr, lf])), sizes = [],
        eof_with_data = False\<rparr> 65540 (\<lambda>i line final. Some ()) = []"
proof -
  have n: "(13108::nat) = Suc 13107" by simp
  have split: "concat (replicate 13108 (''abc'' @ [cr, lf]))
     = ''abc'' @ cr # lf # concat (replicate 13107 (''abc'' @ [cr, lf]))"
    unfolding n concat_replicate_Suc by simp
  have len: "length (concat (replicate 13108 (''abc'' @ [cr, lf]))) = 65540"
    by (simp add: length_concat_replicate)
  have pre: "\<forall>x \<in> set ''abc''. \<not> is_eol x"
    by (simp add: is_eol_def cr_def lf_def)
  have first: "length ''abc'' + 2 \<le> length (fst (Read
      \<lparr>pending = concat (replicate 13108 (''abc'' @ [cr, lf])), sizes = [],
        eof_with_data = False\<rparr> startBufSize))"
    using len by (simp add: Read_def Let_def startBufSize_def)
  show ?thesis
    using split len ReadLines_crlf_stream_lost[of
      "\<lparr>pending = concat (replicate 13108 (''abc'' @ [cr, lf])), sizes = [],
        eof_with_data = False\<rparr>" "''abc''" lf "concat (replicate 13107 (''abc'' @ [cr, lf]))"
      65540 "\<lambda>i line final. Some ()", OF _ pre first]
    by (simp add: MaxScanTokenSize_def)
qed

text \<open>
  C8. The claim: for every stream whose declared size is its byte count, \<open>ReadLines\<close>
  flags exactly one record as final, the one at which the bytes consumed reach the
  declared size, and numbers the records 0, 1, 2, ... The code flags none on a long
  stream with CRLF line ends: for a stream of more than \<open>MaxScanTokenSize\<close> bytes whose
  first terminator is a CR with a byte after it, both delivered by the first \<open>Read\<close>,
  and the declared size equal to the byte count, the number of records flagged as
  final is 0, since the scanner stops with \<open>ErrTooLong\<close> before any record.
\<close>

theorem ReadLines_crlf_stream_no_final:
  assumes "pending rd = pre @ cr # c # post" "\<forall>x \<in> set pre. \<not> is_eol x"
    "length pre + 2 \<le> length (fst (Read rd startBufSize))"
    "MaxScanTokenSize < length (pending rd)"
  shows "length (filter (snd \<circ> snd) (ReadLines_calls rd (int (length (pending rd))))) = 0"
  using Scan_crlf_stream(1)[OF assms] by (simp add: ReadLines_calls_def)

theorem ReadLines_crlf_stream_no_final_witness:
  "concat (replicate 20000 (''ok'' @ [cr, lf]))
     = ''ok'' @ cr # lf # concat (replicate 19999 (''ok'' @ [cr, lf]))
 \<and> length (concat (replicate 20000 (''ok'' @ [cr, lf]))) = 80000
 \<and> length (filter (snd \<circ> snd) (ReadLines_calls
      \<lparr>pending = concat (replicate 20000 (''ok'' @ [cr, lf])), sizes = [],
        eof_with_data = True\<rparr> 80000)) = 0"
proof -
  have n: "(20000::nat) = Suc 19999" by simp
  have split: "concat (replicate 20000 (''ok'' @ [cr, lf]))
     = ''ok'' @ cr # lf # concat (replicate 19999 (''ok'' @ [cr, lf]))"
    unfolding n concat_replicate_Suc by simp
  have len: "length (concat (replicate 20000 (''ok'' @ [cr, lf]))) = 80000"
    by (simp add: length_concat_replicate)
  have pre: "\<forall>x \<in> set ''ok''. \<not> is_eol x"
    by (simp add: is_eol_def cr_def lf_def)
  have first: "length ''ok'' + 2 \<le> length (fst (Read
      \<lparr>pending = concat (replicate 20000 (''ok'' @ [cr, lf])), sizes = [],
        eof_with_data = True\<rparr> startBufSize))"
    using len by (simp add: Read_def Let_def startBufSize_def)
  show ?thesis
    using split len ReadLines_crlf_stream_no_final[of
      "\<lparr>pending = concat (replicate 20000 (''ok'' @ [cr, lf])), sizes = [],
        eof_with_data = True\<rparr>" "''ok''" lf "concat (replicate 19999 (''ok'' @ [cr, lf]))",
      OF _ pre first]
    by (simp add: MaxScanTokenSize_def)
qed

section \<open>errorAt\<close>

text \<open>
  A Go panic (an index or a slice bound out of range) is a value of its own, so that a
  run that panics cannot be mistaken for one that returns.
\<close>

datatype panic = IndexOutOfRange | SliceBoundsOutOfRange

text \<open>
  The styles of the \<open>aurora\<close> library that the package uses, each as the function from a
  text to its styled text (\<open>String()\<close> of the styled value): \<open>WhiteBgRed au s\<close> is
  \<open>au.White(s).BgRed().String()\<close>. The library is not code of the package; what a
  style writes around the text is left open. With colours disabled every style is the
  identity: that is \<open>plain\<close>.
\<close>

record Aurora =
  Magenta :: "string \<Rightarrow> string"
  Green :: "string \<Rightarrow> string"
  BrightRed :: "string \<Rightarrow> string"
  WhiteBgRed :: "string \<Rightarrow> string"


text \<open>\<open>(line[i] >> 6) == 0b10\<close> on the byte read as an 8-bit word.\<close>

definition is_continuation :: "byte \<Rightarrow> bool" where
  "is_continuation c = (drop_bit 6 (of_char c :: 8 word) = 2)"

text \<open>
  The first loop of \<open>errorAt\<close> in \<open>print.go\<close>, \<open>for i := 0; i < position; i++\<close>, with the
  buffer \<open>b\<close> and \<open>position\<close>, which the body increments. Reading \<open>line[i]\<close> with
  \<open>i\<close> beyond the line panics.
\<close>

function errorAt_before :: "string \<Rightarrow> nat \<Rightarrow> int \<Rightarrow> string \<Rightarrow> panic + (int \<times> string)" where
  "errorAt_before line i position b =
     (if int i < position then
        (if i < length line then
           (if line ! i \<noteq> cr \<and> line ! i \<noteq> lf then
              errorAt_before line (i + 1)
                (if is_continuation (line ! i) then position + 1 else position)
                (b @ [line ! i])
            else errorAt_before line (i + 1) position b)
         else Inl IndexOutOfRange)
      else Inr (position, b))"
  by pat_completeness auto
termination
  by (relation "measure (\<lambda>(line, i, position, b). length line - i)") auto

text \<open>
  The second loop, \<open>for i := position + 1; i < len(line); i++\<close>. Its index starts from
  a Go \<open>int\<close> that is negative when \<open>position\<close> is below \<open>-1\<close>, and \<open>line[i]\<close> panics then.
  The body increments \<open>position\<close> too; nothing reads it afterwards.
\<close>

function errorAt_after :: "string \<Rightarrow> int \<Rightarrow> int \<Rightarrow> string \<Rightarrow> panic + (int \<times> string)" where
  "errorAt_after line i position b =
     (if i < int (length line) then
        (if i < 0 then Inl IndexOutOfRange
         else if line ! nat i \<noteq> cr \<and> line ! nat i \<noteq> lf then
           errorAt_after line (i + 1)
             (if is_continuation (line ! nat i) then position + 1 else position)
             (b @ [line ! nat i])
         else errorAt_after line (i + 1) position b)
      else Inr (position, b))"
  by pat_completeness auto
termination
  by (relation "measure (\<lambda>(line, i, position, b). nat (int (length line) - i))") auto

declare errorAt_before.simps [simp del] errorAt_after.simps [simp del]

text \<open>
  \<open>errorAt\<close> of \<open>print.go\<close>. \<open>bytes.NewBuffer(make([]byte, len(line)))\<close> is a buffer whose
  contents are the slice it is given, \<open>len(line)\<close> zero bytes, and every write appends
  to them. The writes of a \<open>bytes.Buffer\<close> return a nil error always, so the error
  result is \<open>None\<close> whenever the function returns. \<open>line[position : position+1]\<close> with a
  negative \<open>position\<close> panics.
\<close>

definition errorAt :: "Aurora \<Rightarrow> string \<Rightarrow> int \<Rightarrow> panic + (string \<times> go_error option)" where
  "errorAt au line position =
     (let b = replicate (length line) (CHR 0x00);
          position = (if position > int (length line) then int (length line) else position)
      in case errorAt_before line 0 position b of
           Inl p \<Rightarrow> Inl p
         | Inr (position, b) \<Rightarrow>
             (case (if position < int (length line) - 1
                    then (if position < 0 then Inl SliceBoundsOutOfRange
                          else Inr [line ! nat position])
                    else Inr '' '') of
                Inl p \<Rightarrow> Inl p
              | Inr s \<Rightarrow>
                  (case errorAt_after line (position + 1) position (b @ WhiteBgRed au s) of
                     Inl p \<Rightarrow> Inl p
                   | Inr (position, b) \<Rightarrow> Inr (b, None))))"

text \<open>
  \<open>errorAt\<close> of \<open>main.go\<close>: the same function without the two increments of
  \<open>position\<close>.
\<close>

function main_errorAt_before :: "string \<Rightarrow> nat \<Rightarrow> int \<Rightarrow> string \<Rightarrow> panic + string" where
  "main_errorAt_before line i position b =
     (if int i < position then
        (if i < length line then
           (if line ! i \<noteq> cr \<and> line ! i \<noteq> lf then
              main_errorAt_before line (i + 1) position (b @ [line ! i])
            else main_errorAt_before line (i + 1) position b)
         else Inl IndexOutOfRange)
      else Inr b)"
  by pat_completeness auto
termination
  by (relation "measure (\<lambda>(line, i, position, b). length line - i)") auto

function main_errorAt_after :: "string \<Rightarrow> int \<Rightarrow> string \<Rightarrow> panic + string" where
  "main_errorAt_after line i b =
     (if i < int (length line) then
        (if i < 0 then Inl IndexOutOfRange
         else if line ! nat i \<noteq> cr \<and> line ! nat i \<noteq> lf then
           main_errorAt_after line (i + 1) (b @ [line ! nat i])
         else main_errorAt_after line (i + 1) b)
      else Inr b)"
  by pat_completeness auto
termination
  by (relation "measure (\<lambda>(line, i, b). nat (int (length line) - i))") auto

declare main_errorAt_before.simps [simp del] main_errorAt_after.simps [simp del]

definition main_errorAt :: "Aurora \<Rightarrow> string \<Rightarrow> int \<Rightarrow> panic + (string \<times> go_error option)" where
  "main_errorAt au line position =
     (let b = replicate (length line) (CHR 0x00);
          position = (if position > int (length line) then int (length line) else position)
      in case main_errorAt_before line 0 position b of
           Inl p \<Rightarrow> Inl p
         | Inr b \<Rightarrow>
             (case (if position < int (length line) - 1
                    then (if position < 0 then Inl SliceBoundsOutOfRange
                          else Inr [line ! nat position])
                    else Inr '' '') of
                Inl p \<Rightarrow> Inl p
              | Inr s \<Rightarrow>
                  (case main_errorAt_after line (position + 1) (b @ WhiteBgRed au s) of
                     Inl p \<Rightarrow> Inl p
                   | Inr b \<Rightarrow> Inr (b, None))))"

section \<open>errorAt: what it returns\<close>

lemma is_continuation_simps:
  "is_continuation (CHR 0xA9)" "\<not> is_continuation (CHR 0xC3)"
  "\<not> is_continuation (CHR ''a'')" "\<not> is_continuation (CHR ''b'')"
  by (simp_all add: is_continuation_def)

text \<open>
  C4. The claim: the column walk treats every continuation byte (top two bits 10) as
  non-advancing, so the highlight never starts inside a multi-byte UTF-8 character and
  no such character is cut in the output. In \<open>print.go\<close> the walk increments \<open>position\<close>
  only when it writes a continuation byte, so a \<open>position\<close> that falls right after a
  lead byte is never moved; in \<open>main.go\<close> nothing moves it at all. On the line
  \<open>C3 A9 61\<close> (the two bytes of e-acute, then \<open>a\<close>) and position 1, both write the lead
  byte \<open>C3\<close>, then the continuation byte \<open>A9\<close> alone as the highlighted text, then \<open>a\<close>.
\<close>

theorem errorAt_highlights_continuation_byte:
  "errorAt au [CHR 0xC3, CHR 0xA9, CHR ''a''] 1
     = Inr ([CHR 0x00, CHR 0x00, CHR 0x00, CHR 0xC3] @ WhiteBgRed au [CHR 0xA9] @ ''a'', None)
 \<and> main_errorAt au [CHR 0xC3, CHR 0xA9, CHR ''a''] 1
     = Inr ([CHR 0x00, CHR 0x00, CHR 0x00, CHR 0xC3] @ WhiteBgRed au [CHR 0xA9] @ ''a'', None)
 \<and> is_continuation (CHR 0xA9)"
  by (simp add: errorAt_def errorAt_before.simps errorAt_after.simps
      main_errorAt_def main_errorAt_before.simps main_errorAt_after.simps
      is_continuation_simps cr_def lf_def)

text \<open>
  C5. The claim: \<open>errorAt\<close> returns exactly the content before the column without CR
  and LF, one highlighted character of the line (or a highlighted space exactly when
  the column is at or past the visible end), then the rest without CR and LF, and no
  other byte. The buffer starts as \<open>len(line)\<close> zero bytes, which stay in front of the
  result; the test \<open>position < len(line)-1\<close> replaces the last character of a line
  without terminator by the space; and at the CR of a CRLF line the CR itself is the
  highlighted text.
\<close>

theorem errorAt_extra_bytes:
  "errorAt au (''ab'' @ [lf]) 0
     = Inr ([CHR 0x00, CHR 0x00, CHR 0x00] @ WhiteBgRed au ''a'' @ ''b'', None)
 \<and> errorAt au ''ab'' 1
     = Inr ([CHR 0x00, CHR 0x00] @ ''a'' @ WhiteBgRed au '' '', None)
 \<and> errorAt au (''ab'' @ [cr, lf]) 2
     = Inr ([CHR 0x00, CHR 0x00, CHR 0x00, CHR 0x00] @ ''ab'' @ WhiteBgRed au [cr], None)"
  by (simp add: errorAt_def errorAt_before.simps errorAt_after.simps
      is_continuation_simps cr_def lf_def)

text \<open>
  C9. The claim: for every line and every position from 0 on, \<open>errorAt\<close> ends without
  an access out of range and returns a nil error. The position is clamped to the
  length of the line before the first loop, and the loop then increments it for every
  continuation byte it writes: on the two bytes \<open>C3 A9\<close> and position 2 the loop goes on
  to read \<open>line[2]\<close>.
\<close>

theorem errorAt_index_out_of_range:
  "errorAt au [CHR 0xC3, CHR 0xA9] 2 = Inl IndexOutOfRange"
  by (simp add: errorAt_def errorAt_before.simps is_continuation_simps cr_def lf_def)

text \<open>The function of \<open>main.go\<close>, which leaves \<open>position\<close> alone, does not panic from
  position 0 on.\<close>

lemma main_errorAt_before_Inr:
  assumes "position \<le> int (length line)"
  shows "\<exists>b'. main_errorAt_before line i position b = Inr b'"
  using assms
proof (induction line i position b rule: main_errorAt_before.induct)
  case (1 line i position b)
  show ?case
  proof (cases "int i < position")
    case True
    then have lt: "i < length line" using "1.prems" by simp
    show ?thesis
    proof (cases "line ! i \<noteq> cr \<and> line ! i \<noteq> lf")
      case True
      from "1.IH"(1)[OF \<open>int i < position\<close> lt True "1.prems"] \<open>int i < position\<close> lt True
      show ?thesis by (subst main_errorAt_before.simps) auto
    next
      case False
      from "1.IH"(2)[OF \<open>int i < position\<close> lt False "1.prems"] \<open>int i < position\<close> lt False
      show ?thesis by (subst main_errorAt_before.simps) auto
    qed
  next
    case False
    then show ?thesis by (subst main_errorAt_before.simps) simp
  qed
qed

lemma main_errorAt_after_Inr:
  assumes "0 \<le> i"
  shows "\<exists>b'. main_errorAt_after line i b = Inr b'"
  using assms
proof (induction line i b rule: main_errorAt_after.induct)
  case (1 line i b)
  show ?case
  proof (cases "i < int (length line)")
    case True
    have nn: "\<not> i < 0" using "1.prems" by simp
    show ?thesis
    proof (cases "line ! nat i \<noteq> cr \<and> line ! nat i \<noteq> lf")
      case T: True
      from "1.IH"(1)[OF True nn T] "1.prems" True nn T
      show ?thesis by (subst main_errorAt_after.simps) auto
    next
      case F: False
      from "1.IH"(2)[OF True nn F] "1.prems" True nn F
      show ?thesis by (subst main_errorAt_after.simps) auto
    qed
  next
    case False
    then show ?thesis by (subst main_errorAt_after.simps) simp
  qed
qed

lemma main_errorAt_no_panic:
  assumes "0 \<le> position"
  shows "\<exists>out. main_errorAt au line position = Inr (out, None)"
proof -
  define p where "p = (if position > int (length line) then int (length line) else position)"
  have p: "0 \<le> p" "p \<le> int (length line)" using assms by (auto simp: p_def)
  obtain b1 where b1: "main_errorAt_before line 0 p (replicate (length line) (CHR 0x00)) = Inr b1"
    using main_errorAt_before_Inr[OF p(2)] by blast
  define s where "s = (if p < int (length line) - 1 then [line ! nat p] else '' '')"
  obtain b2 where b2: "main_errorAt_after line (p + 1) (b1 @ WhiteBgRed au s) = Inr b2"
    using main_errorAt_after_Inr[of "p + 1"] p(1) by (metis add_nonneg_nonneg zero_le_one)
  show ?thesis
    unfolding main_errorAt_def Let_def p_def[symmetric]
    using b1 b2 p(1) by (auto simp: s_def)
qed

section \<open>PrintErrors\<close>










section \<open>PrintErrors in summary mode\<close>






section \<open>Definitions\<close>

text \<open>
  \<open>editorconfig.Definition\<close> of the editorconfig library: the fields that the package
  reads and writes. \<open>Raw\<close> is a Go map, here a partial function.
\<close>

record Definition =
  Selector :: string
  Charset :: string
  IndentStyle :: string
  IndentSize :: string
  TabWidth :: int
  EndOfLine :: string
  TrimTrailingWhitespace :: "bool option"
  InsertFinalNewline :: "bool option"
  Raw :: "string \<rightharpoonup> string"

text \<open>
  The struct \<open>definition\<close> of the package embeds \<open>editorconfig.Definition\<close>: it is the
  record extended. Its own fields \<open>TabWidth\<close> and \<open>IndentSize\<close> (both \<open>int\<close>) hide the
  embedded ones of the same name; they are \<open>def_TabWidth\<close> and \<open>def_IndentSize\<close> here.
\<close>

record eclint_definition = Definition +
  BlockCommentStart :: string
  BlockComment :: string
  BlockCommentEnd :: string
  MaxLength :: int
  def_TabWidth :: int
  def_IndentSize :: int
  LastLine :: string
  LastIndex :: int
  InsideBlockComment :: bool

text \<open>
  Modelled from the spec: \<open>UnsetValue\<close>, the sentinel string "unset" that means "not
  configured", and \<open>ErrConfiguration\<close>, the configuration error, are declared in files
  that are not among the sources; \<open>DefaultTabWidth\<close>, the "fixed constant", is a
  parameter of \<open>newDefinition\<close>. An error is kept as what it says, not as its text:
  \<open>ErrConfiguration\<close> carries what the message names, \<open>CannotBeOverridden nk\<close> is
  \<open>ErrNotImplemented\<close> wrapped with the key.
\<close>

definition UnsetValue :: string where
  "UnsetValue = ''unset''"

datatype configuration_problem =
    BlockCommentEndExpected
  | MaxLineLengthNotANumber string
  | UnsupportedEndOfLine string

datatype definition_error =
    CannotConvertIndentSize string
  | ErrConfiguration configuration_problem
  | TabWidthCannotBeSet string
  | CannotBeOverridden string

text \<open>
  \<open>strconv.Atoi\<close> of the Go library on a 64-bit platform: an optional sign, then one or
  more decimal digits and nothing else, and a value that fits an \<open>int\<close>.
\<close>

definition is_digit :: "char \<Rightarrow> bool" where
  "is_digit c = (48 \<le> (of_char c :: nat) \<and> (of_char c :: nat) \<le> 57)"

definition Atoi :: "string \<Rightarrow> int option" where
  "Atoi s =
     (let signed = (s \<noteq> [] \<and> (hd s = CHR ''-'' \<or> hd s = CHR ''+''));
          ds = (if signed then tl s else s)
      in if ds = [] \<or> \<not> list_all is_digit ds then None
         else
           (let n = int (foldl (\<lambda>a c. 10 * a + (of_char c - 48)) 0 ds);
                v = (if hd s = CHR ''-'' then - n else n)
            in if - (2 ^ 63) \<le> v \<and> v < 2 ^ 63 then Some v else None))"

text \<open>\<open>strings.HasPrefix\<close>.\<close>

definition HasPrefix :: "string \<Rightarrow> string \<Rightarrow> bool" where
  "HasPrefix s p = (length s \<ge> length p \<and> take (length p) s = p)"

subsection \<open>newDefinition\<close>

text \<open>The three checks of \<open>newDefinition\<close>, in the order of the code; each returns
  the error the function returns with, or the definition so far.\<close>

definition newDefinition_indent_size ::
  "Definition \<Rightarrow> eclint_definition \<Rightarrow> definition_error + eclint_definition" where
  "newDefinition_indent_size d def =
     (if IndentSize d \<noteq> [] \<and> IndentSize d \<noteq> UnsetValue then
        (case Atoi (IndentSize d) of
           None \<Rightarrow> Inl (CannotConvertIndentSize (IndentSize d))
         | Some n \<Rightarrow> Inr (def\<lparr>def_IndentSize := n\<rparr>))
      else Inr def)"

definition newDefinition_block_comment ::
  "eclint_definition \<Rightarrow> definition_error + eclint_definition" where
  "newDefinition_block_comment def =
     (if IndentStyle def \<noteq> [] \<and> IndentStyle def \<noteq> UnsetValue then
        (case Raw def ''block_comment_start'' of
           None \<Rightarrow> Inr def
         | Some bs \<Rightarrow>
             if bs \<noteq> [] \<and> bs \<noteq> UnsetValue then
               (let def = def\<lparr>BlockCommentStart := bs\<rparr>;
                    def = (case Raw def ''block_comment'' of
                             None \<Rightarrow> def
                           | Some bc \<Rightarrow>
                               if bc \<noteq> [] \<and> bs \<noteq> UnsetValue
                               then def\<lparr>BlockComment := bc\<rparr> else def)
                in case Raw def ''block_comment_end'' of
                     None \<Rightarrow> Inl (ErrConfiguration BlockCommentEndExpected)
                   | Some be \<Rightarrow>
                       if be = [] \<or> be = UnsetValue
                       then Inl (ErrConfiguration BlockCommentEndExpected)
                       else Inr (def\<lparr>BlockCommentEnd := be\<rparr>))
             else Inr def)
      else Inr def)"

definition newDefinition_max_line_length ::
  "int \<Rightarrow> eclint_definition \<Rightarrow> definition_error + eclint_definition" where
  "newDefinition_max_line_length DefaultTabWidth def =
     (case Raw def ''max_line_length'' of
        None \<Rightarrow> Inr def
      | Some mll \<Rightarrow>
          if mll \<noteq> ''off'' \<and> mll \<noteq> UnsetValue then
            (case Atoi mll of
               None \<Rightarrow> Inl (ErrConfiguration (MaxLineLengthNotANumber mll))
             | Some ml \<Rightarrow>
                 if ml < 0 then Inl (ErrConfiguration (MaxLineLengthNotANumber mll))
                 else
                   (let def = def\<lparr>MaxLength := ml\<rparr>
                    in Inr (if def_TabWidth def \<le> 0
                            then def\<lparr>def_TabWidth := DefaultTabWidth\<rparr> else def)))
          else Inr def)"

definition newDefinition :: "int \<Rightarrow> Definition \<Rightarrow> definition_error + eclint_definition" where
  "newDefinition DefaultTabWidth d =
     (let def = \<lparr>Selector = Selector d, Charset = Charset d, IndentStyle = IndentStyle d,
                 IndentSize = IndentSize d, TabWidth = TabWidth d, EndOfLine = EndOfLine d,
                 TrimTrailingWhitespace = TrimTrailingWhitespace d,
                 InsertFinalNewline = InsertFinalNewline d, Raw = Raw d,
                 BlockCommentStart = [], BlockComment = [], BlockCommentEnd = [],
                 MaxLength = 0, def_TabWidth = TabWidth d, def_IndentSize = 0,
                 LastLine = [], LastIndex = 0, InsideBlockComment = False\<rparr>;
          def = (if Charset def = ''utf-8-bom'' then def\<lparr>Charset := ''utf-8 bom''\<rparr> else def)
      in case newDefinition_indent_size d def of
           Inl e \<Rightarrow> Inl e
         | Inr def \<Rightarrow>
             (case newDefinition_block_comment def of
                Inl e \<Rightarrow> Inl e
              | Inr def \<Rightarrow> newDefinition_max_line_length DefaultTabWidth def))"

subsection \<open>OverrideDefinitionUsingPrefix\<close>

text \<open>The body of the loop for the entry \<open>(k, v)\<close>: the definition afterwards, and the
  error the function returns with, if any.\<close>

definition override_entry ::
  "string \<Rightarrow> string \<Rightarrow> string \<Rightarrow> Definition \<Rightarrow> Definition \<times> definition_error option" where
  "override_entry pfx k v def =
     (if HasPrefix k pfx then
        (let nk = drop (length pfx) k;
             def = def\<lparr>Raw := (Raw def)(nk \<mapsto> v)\<rparr>
         in if nk = ''indent_style'' then (def\<lparr>IndentStyle := v\<rparr>, None)
            else if nk = ''indent_size'' then (def\<lparr>IndentSize := v\<rparr>, None)
            else if nk = ''charset'' then (def\<lparr>Charset := v\<rparr>, None)
            else if nk = ''end_of_line'' then (def\<lparr>EndOfLine := v\<rparr>, None)
            else if nk = ''tab_width'' then
              (case Atoi v of
                 None \<Rightarrow> (def, Some (TabWidthCannotBeSet v))
               | Some i \<Rightarrow> (def\<lparr>TabWidth := i\<rparr>, None))
            else if nk = ''trim_trailing_whitespace'' then (def, Some (CannotBeOverridden nk))
            else if nk = ''insert_final_newline'' then (def, Some (CannotBeOverridden nk))
            else (def, None))
      else (def, None))"

text \<open>
  \<open>for k, v := range def.Raw\<close>. Go visits the entries of a map in an order it does not
  specify, each entry that is in the map from the start once, and an entry that the
  loop adds may be visited or skipped. The order is a parameter: \<open>order\<close> lists the keys
  as the iteration reaches them, and a key that is not in the map when it is reached
  yields no entry. The function changes the definition in place, so the definition is
  returned on an error too.
\<close>

fun OverrideDefinitionUsingPrefix_loop ::
  "string list \<Rightarrow> string \<Rightarrow> Definition \<Rightarrow> Definition \<times> definition_error option" where
  "OverrideDefinitionUsingPrefix_loop [] pfx def = (def, None)"
| "OverrideDefinitionUsingPrefix_loop (k # ks) pfx def =
     (case Raw def k of
        None \<Rightarrow> OverrideDefinitionUsingPrefix_loop ks pfx def
      | Some v \<Rightarrow>
          (case override_entry pfx k v def of
             (def, Some e) \<Rightarrow> (def, Some e)
           | (def, None) \<Rightarrow> OverrideDefinitionUsingPrefix_loop ks pfx def))"

definition OverrideDefinitionUsingPrefix ::
  "string list \<Rightarrow> Definition \<Rightarrow> string \<Rightarrow> Definition \<times> definition_error option" where
  "OverrideDefinitionUsingPrefix order def pfx =
     OverrideDefinitionUsingPrefix_loop order pfx def"

text \<open>An order of iteration over a map: no key twice, every key of the map.\<close>

definition range_order :: "string list \<Rightarrow> (string \<rightharpoonup> string) \<Rightarrow> bool" where
  "range_order order m = (distinct order \<and> dom m \<subseteq> set order)"

section \<open>newDefinition: the block comment markers\<close>

text \<open>
  C3. The claim: for every raw map in which \<open>block_comment_start\<close> is present, not empty
  and not the sentinel, and \<open>block_comment_end\<close> is absent, empty or the sentinel,
  \<open>newDefinition\<close> returns the configuration error about the missing
  \<open>block_comment_end\<close>. The code reads the block comment keys only inside
  \<open>if def.IndentStyle != "" && def.IndentStyle != UnsetValue\<close>, and after the check of
  \<open>indent_size\<close>. What holds: when furthermore \<open>indent_style\<close> is set (not empty, not
  the sentinel) and \<open>indent_size\<close> is empty, the sentinel or an integer, the result is
  that configuration error. \<open>newDefinition\<close> reads no line: it is a function of the
  configuration alone.
\<close>

theorem newDefinition_block_comment_end_expected:
  assumes "IndentStyle d \<noteq> []" "IndentStyle d \<noteq> UnsetValue"
    "IndentSize d = [] \<or> IndentSize d = UnsetValue \<or> Atoi (IndentSize d) \<noteq> None"
    "Raw d ''block_comment_start'' = Some bs" "bs \<noteq> []" "bs \<noteq> UnsetValue"
    "Raw d ''block_comment_end'' = None \<or> Raw d ''block_comment_end'' = Some []
       \<or> Raw d ''block_comment_end'' = Some UnsetValue"
  shows "newDefinition DefaultTabWidth d = Inl (ErrConfiguration BlockCommentEndExpected)"
proof -
  define def0 :: eclint_definition where "def0 =
     \<lparr>Selector = Selector d, Charset = Charset d, IndentStyle = IndentStyle d,
       IndentSize = IndentSize d, TabWidth = TabWidth d, EndOfLine = EndOfLine d,
       TrimTrailingWhitespace = TrimTrailingWhitespace d,
       InsertFinalNewline = InsertFinalNewline d, Raw = Raw d,
       BlockCommentStart = [], BlockComment = [], BlockCommentEnd = [],
       MaxLength = 0, def_TabWidth = TabWidth d, def_IndentSize = 0,
       LastLine = [], LastIndex = 0, InsideBlockComment = False\<rparr>"
  define def1 where
    "def1 = (if Charset def0 = ''utf-8-bom'' then def0\<lparr>Charset := ''utf-8 bom''\<rparr> else def0)"
  have d1: "IndentStyle def1 = IndentStyle d" "Raw def1 = Raw d"
    by (simp_all add: def1_def def0_def)
  have "\<exists>def2. newDefinition_indent_size d def1 = Inr def2
           \<and> IndentStyle def2 = IndentStyle d \<and> Raw def2 = Raw d"
    using assms(3) d1
    by (auto simp: newDefinition_indent_size_def split: option.splits)
  then obtain def2 where s1: "newDefinition_indent_size d def1 = Inr def2"
    and d2: "IndentStyle def2 = IndentStyle d" "Raw def2 = Raw d"
    by blast
  have s2: "newDefinition_block_comment def2 = Inl (ErrConfiguration BlockCommentEndExpected)"
    using assms(1,2,4,5,6,7) d2
    by (auto simp: newDefinition_block_comment_def Let_def split: option.splits)
  show ?thesis
    unfolding newDefinition_def Let_def def0_def[symmetric] def1_def[symmetric]
    by (simp add: s1 s2)
qed

theorem newDefinition_block_comment_end_expected_witness:
  "IndentStyle \<lparr>Selector = [], Charset = [], IndentStyle = ''space'', IndentSize = ''4'',
        TabWidth = 0, EndOfLine = [], TrimTrailingWhitespace = None,
        InsertFinalNewline = None, Raw = [''block_comment_start'' \<mapsto> ''/*'']\<rparr> \<noteq> UnsetValue
 \<and> Atoi ''4'' = Some 4
 \<and> newDefinition 8
      \<lparr>Selector = [], Charset = [], IndentStyle = ''space'', IndentSize = ''4'',
        TabWidth = 0, EndOfLine = [], TrimTrailingWhitespace = None,
        InsertFinalNewline = None, Raw = [''block_comment_start'' \<mapsto> ''/*'']\<rparr>
   = Inl (ErrConfiguration BlockCommentEndExpected)"
  using newDefinition_block_comment_end_expected[of
      "\<lparr>Selector = [], Charset = [], IndentStyle = ''space'', IndentSize = ''4'',
        TabWidth = 0, EndOfLine = [], TrimTrailingWhitespace = None,
        InsertFinalNewline = None, Raw = [''block_comment_start'' \<mapsto> ''/*'']\<rparr>"
      "''/*''" 8]
  by (simp add: UnsetValue_def Atoi_def is_digit_def)

text \<open>No \<open>indent_style\<close>: the start marker without an end marker is accepted.
  And an \<open>indent_size\<close> that is no integer: that error comes first.\<close>

theorem newDefinition_block_comment_end_expected_counterexample:
  "newDefinition 8
      \<lparr>Selector = [], Charset = [], IndentStyle = [], IndentSize = [],
        TabWidth = 0, EndOfLine = [], TrimTrailingWhitespace = None,
        InsertFinalNewline = None, Raw = [''block_comment_start'' \<mapsto> ''/*'']\<rparr>
   = Inr \<lparr>Selector = [], Charset = [], IndentStyle = [], IndentSize = [],
        TabWidth = 0, EndOfLine = [], TrimTrailingWhitespace = None,
        InsertFinalNewline = None, Raw = [''block_comment_start'' \<mapsto> ''/*''],
        BlockCommentStart = [], BlockComment = [], BlockCommentEnd = [],
        MaxLength = 0, def_TabWidth = 0, def_IndentSize = 0,
        LastLine = [], LastIndex = 0, InsideBlockComment = False\<rparr>
 \<and> newDefinition 8
      \<lparr>Selector = [], Charset = [], IndentStyle = ''tab'', IndentSize = ''tab'',
        TabWidth = 0, EndOfLine = [], TrimTrailingWhitespace = None,
        InsertFinalNewline = None, Raw = [''block_comment_start'' \<mapsto> ''/*'']\<rparr>
   = Inl (CannotConvertIndentSize ''tab'')"
  by (simp add: newDefinition_def newDefinition_indent_size_def newDefinition_block_comment_def
      newDefinition_max_line_length_def UnsetValue_def Atoi_def is_digit_def)

section \<open>OverrideDefinitionUsingPrefix: one entry\<close>

lemma HasPrefix_append: "HasPrefix (p @ x) p"
  by (simp add: HasPrefix_def)

lemma HasPrefix_drop:
  assumes "HasPrefix k p"
  shows "k = p @ drop (length p) k"
  using assms append_take_drop_id[of "length p" k] by (simp add: HasPrefix_def)

lemma HasPrefix_twice:
  assumes "HasPrefix k p" "HasPrefix (drop (length p) k) p"
  shows "HasPrefix k (p @ p)"
proof -
  have "k = p @ drop (length p) k" using HasPrefix_drop[OF assms(1)] .
  also have "drop (length p) k = p @ drop (length p) (drop (length p) k)"
    using HasPrefix_drop[OF assms(2)] .
  finally have "k = (p @ p) @ drop (length p) (drop (length p) k)" by simp
  then show ?thesis using HasPrefix_append[of "p @ p"] by metis
qed

lemma HasPrefix_shorter:
  assumes "HasPrefix k (p @ p)"
  shows "HasPrefix k p"
  using assms by (auto simp: HasPrefix_def take_eq_Nil min_def dest: arg_cong[where f = "take (length p)"])

text \<open>An entry without the prefix changes nothing; one with the prefix writes the
  un-prefixed copy first, whatever follows.\<close>

lemma override_entry_other:
  assumes "\<not> HasPrefix k pfx"
  shows "override_entry pfx k v def = (def, None)"
  using assms by (simp add: override_entry_def)

lemma override_entry_Raw:
  assumes "HasPrefix k pfx" "override_entry pfx k v def = (def1, r)"
  shows "Raw def1 = (Raw def)(drop (length pfx) k \<mapsto> v)"
  using assms by (auto simp: override_entry_def Let_def split: if_splits option.splits)

lemma override_entry_error:
  assumes "override_entry pfx k v def = (def1, Some e)"
  shows "HasPrefix k pfx \<and> def1 = def\<lparr>Raw := (Raw def)(drop (length pfx) k \<mapsto> v)\<rparr>
       \<and> ((e = CannotBeOverridden (drop (length pfx) k)
            \<and> (drop (length pfx) k = ''trim_trailing_whitespace''
                \<or> drop (length pfx) k = ''insert_final_newline''))
          \<or> (e = TabWidthCannotBeSet v \<and> Atoi v = None \<and> drop (length pfx) k = ''tab_width''))"
  using assms by (auto simp: override_entry_def Let_def split: if_splits option.splits)

lemma override_entry_not_supported:
  assumes "HasPrefix k pfx"
    "drop (length pfx) k = ''trim_trailing_whitespace''
       \<or> drop (length pfx) k = ''insert_final_newline''"
  shows "override_entry pfx k v def
       = (def\<lparr>Raw := (Raw def)(drop (length pfx) k \<mapsto> v)\<rparr>,
          Some (CannotBeOverridden (drop (length pfx) k)))"
  using assms by (auto simp: override_entry_def Let_def)

lemma override_entry_flags:
  assumes "override_entry pfx k v def = (def1, r)"
  shows "TrimTrailingWhitespace def1 = TrimTrailingWhitespace def"
    "InsertFinalNewline def1 = InsertFinalNewline def"
  using assms by (auto simp: override_entry_def Let_def split: if_splits option.splits)

lemma override_entry_dom:
  assumes "override_entry pfx k v def = (def1, r)"
  shows "dom (Raw def) \<subseteq> dom (Raw def1)"
proof (cases "HasPrefix k pfx")
  case True
  from override_entry_Raw[OF True assms] show ?thesis by auto
next
  case False
  with assms show ?thesis by (simp add: override_entry_other)
qed

section \<open>OverrideDefinitionUsingPrefix: the loop\<close>

lemma Override_loop_flags:
  assumes "OverrideDefinitionUsingPrefix_loop ks pfx def = (def', r)"
  shows "TrimTrailingWhitespace def' = TrimTrailingWhitespace def
       \<and> InsertFinalNewline def' = InsertFinalNewline def"
  using assms
proof (induction ks arbitrary: def)
  case Nil
  then show ?case by simp
next
  case (Cons k ks)
  show ?case
  proof (cases "Raw def k")
    case None
    with Cons show ?thesis by simp
  next
    case (Some v)
    obtain def1 r1 where E: "override_entry pfx k v def = (def1, r1)"
      by (cases "override_entry pfx k v def") auto
    note F = override_entry_flags[OF E]
    show ?thesis
    proof (cases r1)
      case None
      with Cons.prems Some E have "OverrideDefinitionUsingPrefix_loop ks pfx def1 = (def', r)"
        by simp
      from Cons.IH[OF this] F show ?thesis by simp
    next
      case (Some e)
      with Cons.prems \<open>Raw def k = Some v\<close> E have "def' = def1" by simp
      with F show ?thesis by simp
    qed
  qed
qed

text \<open>The errors the loop can end with.\<close>

definition override_failure :: "definition_error \<Rightarrow> bool" where
  "override_failure e =
     (e = CannotBeOverridden ''trim_trailing_whitespace''
      \<or> e = CannotBeOverridden ''insert_final_newline''
      \<or> (\<exists>v. e = TabWidthCannotBeSet v \<and> Atoi v = None))"

lemma Override_loop_failure:
  assumes "OverrideDefinitionUsingPrefix_loop ks pfx def = (def', Some e)"
  shows "override_failure e"
  using assms
proof (induction ks arbitrary: def)
  case Nil
  then show ?case by simp
next
  case (Cons k ks)
  show ?case
  proof (cases "Raw def k")
    case None
    with Cons show ?thesis by simp
  next
    case (Some v)
    obtain def1 r1 where E: "override_entry pfx k v def = (def1, r1)"
      by (cases "override_entry pfx k v def") auto
    show ?thesis
    proof (cases r1)
      case None
      with Cons.prems Some E have "OverrideDefinitionUsingPrefix_loop ks pfx def1 = (def', Some e)"
        by simp
      from Cons.IH[OF this] show ?thesis .
    next
      case (Some e1)
      with Cons.prems \<open>Raw def k = Some v\<close> E have "e = e1" by simp
      with override_entry_error[of pfx k v def def1 e1] E Some show ?thesis
        by (auto simp: override_failure_def)
    qed
  qed
qed

text \<open>A key for one of the two settings that cannot be overridden, in the map and
  in the order: the loop does not get past it.\<close>

lemma Override_loop_fails:
  assumes "k0 \<in> set ks" "k0 \<in> dom (Raw def)" "HasPrefix k0 pfx"
    "drop (length pfx) k0 = ''trim_trailing_whitespace''
       \<or> drop (length pfx) k0 = ''insert_final_newline''"
  shows "snd (OverrideDefinitionUsingPrefix_loop ks pfx def) \<noteq> None"
  using assms(1,2)
proof (induction ks arbitrary: def)
  case Nil
  then show ?case by simp
next
  case (Cons k ks)
  show ?case
  proof (cases "Raw def k")
    case None
    with Cons.prems have "k0 \<in> set ks" by auto
    from Cons.IH[OF this Cons.prems(2)] None show ?thesis by simp
  next
    case (Some v)
    obtain def1 r1 where E: "override_entry pfx k v def = (def1, r1)"
      by (cases "override_entry pfx k v def") auto
    show ?thesis
    proof (cases r1)
      case None
      have "k \<noteq> k0"
      proof
        assume "k = k0"
        with override_entry_not_supported[OF assms(3,4), of v def] E None show False by simp
      qed
      with Cons.prems have in_ks: "k0 \<in> set ks" by auto
      have "k0 \<in> dom (Raw def1)" using override_entry_dom[OF E] Cons.prems(2) by auto
      from Cons.IH[OF in_ks this] Some E None show ?thesis by simp
    next
      case (Some e1)
      with \<open>Raw def k = Some v\<close> E show ?thesis by simp
    qed
  qed
qed

text \<open>When every key that ends in \<open>tab_width\<close> has an integer value, the loop never
  ends with the error of \<open>tab_width\<close>.\<close>

definition tab_widths_parse :: "(string \<rightharpoonup> string) \<Rightarrow> bool" where
  "tab_widths_parse m = (\<forall>k v. m k = Some v \<and> suffix ''tab_width'' k \<longrightarrow> Atoi v \<noteq> None)"

lemma override_entry_tab_widths_parse:
  assumes "tab_widths_parse (Raw def)" "Raw def k = Some v"
    "override_entry pfx k v def = (def1, r)"
  shows "tab_widths_parse (Raw def1)" "r \<noteq> Some (TabWidthCannotBeSet v')"
proof -
  show "tab_widths_parse (Raw def1)"
  proof (cases "HasPrefix k pfx")
    case True
    have R: "Raw def1 = (Raw def)(drop (length pfx) k \<mapsto> v)"
      using override_entry_Raw[OF True assms(3)] .
    have "suffix (drop (length pfx) k) k" by (rule suffix_drop)
    then have "suffix ''tab_width'' (drop (length pfx) k) \<Longrightarrow> Atoi v \<noteq> None"
      using assms(1,2) suffix_order.trans unfolding tab_widths_parse_def by blast
    then show ?thesis using assms(1) unfolding tab_widths_parse_def R by auto
  next
    case False
    with assms show ?thesis by (simp add: override_entry_other)
  qed
  show "r \<noteq> Some (TabWidthCannotBeSet v')"
  proof
    assume r: "r = Some (TabWidthCannotBeSet v')"
    from override_entry_error[of pfx k v def def1 "TabWidthCannotBeSet v'"] assms(3) r
    have "Atoi v = None" "drop (length pfx) k = ''tab_width''" by auto
    moreover have "suffix (drop (length pfx) k) k" by (rule suffix_drop)
    ultimately show False using assms(1,2) unfolding tab_widths_parse_def by metis
  qed
qed

lemma Override_loop_tab_widths_parse:
  assumes "tab_widths_parse (Raw def)"
  shows "snd (OverrideDefinitionUsingPrefix_loop ks pfx def) \<noteq> Some (TabWidthCannotBeSet v')"
  using assms
proof (induction ks arbitrary: def)
  case Nil
  then show ?case by simp
next
  case (Cons k ks)
  show ?case
  proof (cases "Raw def k")
    case None
    with Cons show ?thesis by simp
  next
    case (Some v)
    obtain def1 r1 where E: "override_entry pfx k v def = (def1, r1)"
      by (cases "override_entry pfx k v def") auto
    note T = override_entry_tab_widths_parse[OF Cons.prems Some E]
    show ?thesis
    proof (cases r1)
      case None
      with Cons.IH[OF T(1)] Some E show ?thesis by simp
    next
      case (Some e1)
      with T(2)[of v'] \<open>Raw def k = Some v\<close> E show ?thesis by simp
    qed
  qed
qed

section \<open>OverrideDefinitionUsingPrefix: the typed fields\<close>

text \<open>
  An entry whose un-prefixed name has the prefix again is an entry for a later turn of
  the loop, and can replace the value of a prefixed key before the loop reaches it.
  \<open>single_prefix\<close>: no key of the map has the prefix twice (an empty prefix is on every
  key any number of times, and the copy is then the entry itself).
\<close>

definition single_prefix :: "string \<Rightarrow> (string \<rightharpoonup> string) \<Rightarrow> bool" where
  "single_prefix pfx m = (pfx = [] \<or> (\<forall>k \<in> dom m. \<not> HasPrefix k (pfx @ pfx)))"

text \<open>What "the typed field of the key holds the value" means, key by key.\<close>

definition field_is :: "string \<Rightarrow> string \<Rightarrow> Definition \<Rightarrow> bool" where
  "field_is nk v def =
     (if nk = ''indent_style'' then IndentStyle def = v
      else if nk = ''indent_size'' then IndentSize def = v
      else if nk = ''charset'' then Charset def = v
      else if nk = ''end_of_line'' then EndOfLine def = v
      else if nk = ''tab_width'' then Atoi v = Some (TabWidth def)
      else False)"

definition allow_list :: "string set" where
  "allow_list = {''indent_style'', ''indent_size'', ''charset'', ''end_of_line'', ''tab_width''}"

lemma override_entry_single_prefix:
  assumes "single_prefix pfx (Raw def)" "Raw def k = Some v"
    "override_entry pfx k v def = (def1, r)"
  shows "single_prefix pfx (Raw def1)" "HasPrefix k' pfx \<Longrightarrow> Raw def1 k' = Raw def k'"
proof -
  have "single_prefix pfx (Raw def1) \<and> (HasPrefix k' pfx \<longrightarrow> Raw def1 k' = Raw def k')"
  proof (cases "HasPrefix k pfx")
    case False
    with assms show ?thesis by (simp add: override_entry_other)
  next
    case True
    have R: "Raw def1 = (Raw def)(drop (length pfx) k \<mapsto> v)"
      using override_entry_Raw[OF True assms(3)] .
    show ?thesis
    proof (cases "pfx = []")
      case True
      then have "Raw def1 = Raw def" using R assms(2) by (simp add: map_upd_triv)
      with assms(1) show ?thesis by simp
    next
      case False
      have k: "\<not> HasPrefix k (pfx @ pfx)"
        using assms(1,2) False by (auto simp: single_prefix_def)
      then have nk: "\<not> HasPrefix (drop (length pfx) k) pfx"
        using HasPrefix_twice[OF True] by blast
      then have "\<not> HasPrefix (drop (length pfx) k) (pfx @ pfx)"
        using HasPrefix_shorter by blast
      then have "single_prefix pfx (Raw def1)"
        using assms(1) False unfolding single_prefix_def R by auto
      moreover have "HasPrefix k' pfx \<longrightarrow> Raw def1 k' = Raw def k'"
        using nk unfolding R by auto
      ultimately show ?thesis by simp
    qed
  qed
  then show "single_prefix pfx (Raw def1)" "HasPrefix k' pfx \<Longrightarrow> Raw def1 k' = Raw def k'"
    by simp_all
qed

lemma override_entry_field_set:
  assumes "nk \<in> allow_list" "override_entry pfx (pfx @ nk) v def = (def1, None)"
  shows "field_is nk v def1"
proof -
  have "nk = ''indent_style'' \<or> nk = ''indent_size'' \<or> nk = ''charset''
      \<or> nk = ''end_of_line'' \<or> nk = ''tab_width''"
    using assms(1) by (simp add: allow_list_def)
  then show ?thesis
  proof (elim disjE)
    assume "nk = ''indent_style''"
    with assms(2) show ?thesis
      by (auto simp: override_entry_def HasPrefix_append field_is_def)
  next
    assume "nk = ''indent_size''"
    with assms(2) show ?thesis
      by (auto simp: override_entry_def HasPrefix_append field_is_def)
  next
    assume "nk = ''charset''"
    with assms(2) show ?thesis
      by (auto simp: override_entry_def HasPrefix_append field_is_def)
  next
    assume "nk = ''end_of_line''"
    with assms(2) show ?thesis
      by (auto simp: override_entry_def HasPrefix_append field_is_def)
  next
    assume "nk = ''tab_width''"
    with assms(2) show ?thesis
      by (cases "Atoi v") (auto simp: override_entry_def HasPrefix_append field_is_def Let_def)
  qed
qed

lemma override_entry_field_keep:
  assumes "k \<noteq> pfx @ nk" "field_is nk v def" "override_entry pfx k v' def = (def1, r)"
  shows "field_is nk v def1"
proof (cases "HasPrefix k pfx")
  case False
  with assms show ?thesis by (simp add: override_entry_other)
next
  case True
  then have "drop (length pfx) k \<noteq> nk" using HasPrefix_drop[OF True] assms(1) by auto
  with assms(2,3) True show ?thesis
    by (auto simp: override_entry_def field_is_def Let_def split: if_splits option.splits)
qed

text \<open>After the loop has passed the key, its field stays.\<close>

lemma Override_loop_field_keep:
  assumes "pfx @ nk \<notin> set ks" "field_is nk v def"
    "OverrideDefinitionUsingPrefix_loop ks pfx def = (def', r)"
  shows "field_is nk v def'"
  using assms
proof (induction ks arbitrary: def)
  case Nil
  then show ?case by simp
next
  case (Cons k ks)
  then have ne: "k \<noteq> pfx @ nk" and notin: "pfx @ nk \<notin> set ks" by auto
  show ?case
  proof (cases "Raw def k")
    case None
    with Cons.prems Cons.IH[OF notin] show ?thesis by simp
  next
    case (Some v')
    obtain def1 r1 where E: "override_entry pfx k v' def = (def1, r1)"
      by (cases "override_entry pfx k v' def") auto
    note K = override_entry_field_keep[OF ne Cons.prems(2) E]
    show ?thesis
    proof (cases r1)
      case None
      with Cons.prems(3) Some E have "OverrideDefinitionUsingPrefix_loop ks pfx def1 = (def', r)"
        by simp
      from Cons.IH[OF notin K this] show ?thesis .
    next
      case (Some e1)
      with Cons.prems(3) \<open>Raw def k = Some v'\<close> E have "def' = def1" by simp
      with K show ?thesis by simp
    qed
  qed
qed

text \<open>A successful loop has set the field of every allow-listed key it met.\<close>

lemma Override_loop_field_set:
  assumes "pfx @ nk \<in> set ks" "distinct ks" "Raw def (pfx @ nk) = Some v"
    "single_prefix pfx (Raw def)" "nk \<in> allow_list"
    "OverrideDefinitionUsingPrefix_loop ks pfx def = (def', None)"
  shows "field_is nk v def'"
  using assms(1,2,3,4,6)
proof (induction ks arbitrary: def)
  case Nil
  then show ?case by simp
next
  case (Cons k ks)
  show ?case
  proof (cases "k = pfx @ nk")
    case True
    obtain def1 r1 where E: "override_entry pfx (pfx @ nk) v def = (def1, r1)"
      by (cases "override_entry pfx (pfx @ nk) v def") auto
    have r1: "r1 = None" and L: "OverrideDefinitionUsingPrefix_loop ks pfx def1 = (def', None)"
      using Cons.prems(5) Cons.prems(3) True E by (cases r1; simp)+
    have "field_is nk v def1"
      using override_entry_field_set[OF assms(5)] E r1 by simp
    moreover have "pfx @ nk \<notin> set ks" using Cons.prems(2) True by simp
    ultimately show ?thesis using Override_loop_field_keep L by blast
  next
    case False
    with Cons.prems have in_ks: "pfx @ nk \<in> set ks" and dist: "distinct ks" by auto
    show ?thesis
    proof (cases "Raw def k")
      case None
      with Cons.prems(5) have "OverrideDefinitionUsingPrefix_loop ks pfx def = (def', None)"
        by simp
      from Cons.IH[OF in_ks dist Cons.prems(3) Cons.prems(4) this] show ?thesis .
    next
      case (Some v')
      obtain def1 r1 where E: "override_entry pfx k v' def = (def1, r1)"
        by (cases "override_entry pfx k v' def") auto
      have r1: "r1 = None" and L: "OverrideDefinitionUsingPrefix_loop ks pfx def1 = (def', None)"
        using Cons.prems(5) Some E by (cases r1; simp)+
      note S = override_entry_single_prefix[OF Cons.prems(4) Some E]
      have "Raw def1 (pfx @ nk) = Some v"
        using S(2)[of "pfx @ nk"] Cons.prems(3) by (simp add: HasPrefix_append)
      from Cons.IH[OF in_ks dist this S(1) L] show ?thesis .
    qed
  qed
qed

text \<open>A prefixed \<open>tab_width\<close> that is no integer: the loop does not get past it.\<close>

lemma Override_loop_tab_width_fails:
  assumes "pfx @ ''tab_width'' \<in> set ks" "Raw def (pfx @ ''tab_width'') = Some v"
    "Atoi v = None" "single_prefix pfx (Raw def)"
  shows "snd (OverrideDefinitionUsingPrefix_loop ks pfx def) \<noteq> None"
  using assms(1,2,4)
proof (induction ks arbitrary: def)
  case Nil
  then show ?case by simp
next
  case (Cons k ks)
  show ?case
  proof (cases "k = pfx @ ''tab_width''")
    case True
    have "snd (override_entry pfx (pfx @ ''tab_width'') v def) = Some (TabWidthCannotBeSet v)"
      using assms(3) by (simp add: override_entry_def HasPrefix_append)
    then show ?thesis using True Cons.prems(2)
      by (cases "override_entry pfx (pfx @ ''tab_width'') v def") simp
  next
    case False
    with Cons.prems have in_ks: "pfx @ ''tab_width'' \<in> set ks" by auto
    show ?thesis
    proof (cases "Raw def k")
      case None
      with Cons.IH[OF in_ks Cons.prems(2) Cons.prems(3)] show ?thesis by simp
    next
      case (Some v')
      obtain def1 r1 where E: "override_entry pfx k v' def = (def1, r1)"
        by (cases "override_entry pfx k v' def") auto
      note S = override_entry_single_prefix[OF Cons.prems(3) Some E]
      have "Raw def1 (pfx @ ''tab_width'') = Some v"
        using S(2)[of "pfx @ ''tab_width''"] Cons.prems(2) by (simp add: HasPrefix_append)
      from Cons.IH[OF in_ks this S(1)] Some E show ?thesis
        by (cases r1) simp_all
    qed
  qed
qed

section \<open>OverrideDefinitionUsingPrefix: the claims\<close>

text \<open>
  C7. The claim: if the raw map has the key prefix + \<open>trim_trailing_whitespace\<close> or
  prefix + \<open>insert_final_newline\<close>, the function returns the not-supported error and
  never applies such an override; for the allow-listed keys the typed field is
  overwritten, and a prefixed \<open>tab_width\<close> that is no integer makes the call fail too.
  The loop returns at the first error it meets, in the order of the iteration, so the
  error can be the one of \<open>tab_width\<close>; and an entry with the prefix twice can replace
  the value of a prefixed key before the loop reaches it. What holds, for every order
  of iteration over the raw map:
  \<^item> with one of the two keys in the map the call fails, with the not-supported error
    for one of the two settings or with the error of \<open>tab_width\<close> for a value that is
    no integer; with the not-supported error when every key that ends in
    \<open>tab_width\<close> has an integer value;
  \<^item> the typed fields \<open>TrimTrailingWhitespace\<close> and \<open>InsertFinalNewline\<close> are never
    changed;
  \<^item> when no key has the prefix twice: after a call that succeeds, the typed field
    of every allow-listed key that the map has with the prefix holds its value (for
    \<open>tab_width\<close>, the integer it parses to), and a prefixed \<open>tab_width\<close> whose value is
    no integer makes the call fail.
\<close>

theorem OverrideDefinitionUsingPrefix_errors:
  assumes "range_order order (Raw def)"
    "OverrideDefinitionUsingPrefix order def pfx = (def', r)"
  shows "(pfx @ ''trim_trailing_whitespace'' \<in> dom (Raw def)
            \<or> pfx @ ''insert_final_newline'' \<in> dom (Raw def)
          \<longrightarrow> (\<exists>e. r = Some e \<and> override_failure e)
              \<and> (tab_widths_parse (Raw def)
                   \<longrightarrow> r = Some (CannotBeOverridden ''trim_trailing_whitespace'')
                     \<or> r = Some (CannotBeOverridden ''insert_final_newline'')))
       \<and> TrimTrailingWhitespace def' = TrimTrailingWhitespace def
       \<and> InsertFinalNewline def' = InsertFinalNewline def
       \<and> (single_prefix pfx (Raw def)
          \<longrightarrow> (\<forall>nk \<in> allow_list. \<forall>v. Raw def (pfx @ nk) = Some v \<and> r = None
                   \<longrightarrow> field_is nk v def')
              \<and> (\<forall>v. Raw def (pfx @ ''tab_width'') = Some v \<and> Atoi v = None \<longrightarrow> r \<noteq> None))"
proof -
  note L = assms(2)[unfolded OverrideDefinitionUsingPrefix_def]
  have dist: "distinct order" and keys: "dom (Raw def) \<subseteq> set order"
    using assms(1) by (simp_all add: range_order_def)
  have 1: "(\<exists>e. r = Some e \<and> override_failure e)
         \<and> (tab_widths_parse (Raw def)
              \<longrightarrow> r = Some (CannotBeOverridden ''trim_trailing_whitespace'')
                \<or> r = Some (CannotBeOverridden ''insert_final_newline''))"
    if "pfx @ ''trim_trailing_whitespace'' \<in> dom (Raw def)
          \<or> pfx @ ''insert_final_newline'' \<in> dom (Raw def)"
  proof -
    from that obtain nk where nk: "pfx @ nk \<in> dom (Raw def)"
      "nk = ''trim_trailing_whitespace'' \<or> nk = ''insert_final_newline''"
      by blast
    have "snd (OverrideDefinitionUsingPrefix_loop order pfx def) \<noteq> None"
    proof (rule Override_loop_fails[of "pfx @ nk"])
      show "pfx @ nk \<in> set order" using nk(1) keys by blast
      show "pfx @ nk \<in> dom (Raw def)" by (rule nk(1))
      show "HasPrefix (pfx @ nk) pfx" by (rule HasPrefix_append)
      show "drop (length pfx) (pfx @ nk) = ''trim_trailing_whitespace''
          \<or> drop (length pfx) (pfx @ nk) = ''insert_final_newline''"
        using nk(2) by simp
    qed
    then obtain e where e: "r = Some e" using L by auto
    then have f: "override_failure e" using Override_loop_failure L by blast
    have "r = Some (CannotBeOverridden ''trim_trailing_whitespace'')
        \<or> r = Some (CannotBeOverridden ''insert_final_newline'')"
      if "tab_widths_parse (Raw def)"
    proof -
      have "\<And>v. r \<noteq> Some (TabWidthCannotBeSet v)"
        using Override_loop_tab_widths_parse[OF that, of order pfx] L by simp
      with f e show ?thesis by (auto simp: override_failure_def)
    qed
    with e f show ?thesis by blast
  qed
  have 2: "TrimTrailingWhitespace def' = TrimTrailingWhitespace def
         \<and> InsertFinalNewline def' = InsertFinalNewline def"
    using Override_loop_flags[OF L] .
  have 3: "field_is nk v def'"
    if "single_prefix pfx (Raw def)" "nk \<in> allow_list" "Raw def (pfx @ nk) = Some v" "r = None"
    for nk v
  proof (rule Override_loop_field_set[of pfx nk order def v def'])
    show "pfx @ nk \<in> set order" using that(3) keys by blast
    show "OverrideDefinitionUsingPrefix_loop order pfx def = (def', None)"
      using L that(4) by simp
  qed (use that dist in simp_all)
  have 4: "r \<noteq> None"
    if "single_prefix pfx (Raw def)" "Raw def (pfx @ ''tab_width'') = Some v" "Atoi v = None"
    for v
  proof -
    have "pfx @ ''tab_width'' \<in> set order" using that(2) keys by blast
    from Override_loop_tab_width_fails[OF this that(2,3,1)] L show ?thesis by simp
  qed
  show ?thesis using 1 2 3 4 by blast
qed

text \<open>Two runs: a map with a prefixed \<open>indent_style\<close> and \<open>tab_width\<close>, which succeeds and
  sets both fields; a map with a prefixed \<open>trim_trailing_whitespace\<close>, which fails.\<close>

theorem OverrideDefinitionUsingPrefix_errors_witness:
  "range_order [''p_tab_width'', ''p_indent_style'']
     [''p_indent_style'' \<mapsto> ''tab'', ''p_tab_width'' \<mapsto> ''4'']
 \<and> single_prefix ''p_'' [''p_indent_style'' \<mapsto> ''tab'', ''p_tab_width'' \<mapsto> ''4'']
 \<and> snd (OverrideDefinitionUsingPrefix [''p_tab_width'', ''p_indent_style'']
      \<lparr>Selector = [], Charset = [], IndentStyle = ''space'', IndentSize = [], TabWidth = 8,
        EndOfLine = [], TrimTrailingWhitespace = None, InsertFinalNewline = None,
        Raw = [''p_indent_style'' \<mapsto> ''tab'', ''p_tab_width'' \<mapsto> ''4'']\<rparr> ''p_'') = None
 \<and> IndentStyle (fst (OverrideDefinitionUsingPrefix [''p_tab_width'', ''p_indent_style'']
      \<lparr>Selector = [], Charset = [], IndentStyle = ''space'', IndentSize = [], TabWidth = 8,
        EndOfLine = [], TrimTrailingWhitespace = None, InsertFinalNewline = None,
        Raw = [''p_indent_style'' \<mapsto> ''tab'', ''p_tab_width'' \<mapsto> ''4'']\<rparr> ''p_'')) = ''tab''
 \<and> Atoi ''4'' = Some (TabWidth (fst (OverrideDefinitionUsingPrefix [''p_tab_width'', ''p_indent_style'']
      \<lparr>Selector = [], Charset = [], IndentStyle = ''space'', IndentSize = [], TabWidth = 8,
        EndOfLine = [], TrimTrailingWhitespace = None, InsertFinalNewline = None,
        Raw = [''p_indent_style'' \<mapsto> ''tab'', ''p_tab_width'' \<mapsto> ''4'']\<rparr> ''p_'')))
 \<and> range_order [''p_trim_trailing_whitespace''] [''p_trim_trailing_whitespace'' \<mapsto> ''true'']
 \<and> tab_widths_parse [''p_trim_trailing_whitespace'' \<mapsto> ''true'']
 \<and> snd (OverrideDefinitionUsingPrefix [''p_trim_trailing_whitespace'']
      \<lparr>Selector = [], Charset = [], IndentStyle = ''space'', IndentSize = [], TabWidth = 8,
        EndOfLine = [], TrimTrailingWhitespace = None, InsertFinalNewline = None,
        Raw = [''p_trim_trailing_whitespace'' \<mapsto> ''true'']\<rparr> ''p_'')
   = Some (CannotBeOverridden ''trim_trailing_whitespace'')"
proof -
  define d1 where "d1 = \<lparr>Selector = [], Charset = [], IndentStyle = ''space'', IndentSize = [],
        TabWidth = 8, EndOfLine = [], TrimTrailingWhitespace = None, InsertFinalNewline = None,
        Raw = [''p_indent_style'' \<mapsto> ''tab'', ''p_tab_width'' \<mapsto> ''4'']\<rparr>"
  define d2 where "d2 = \<lparr>Selector = [], Charset = [], IndentStyle = ''space'', IndentSize = [],
        TabWidth = 8, EndOfLine = [], TrimTrailingWhitespace = None, InsertFinalNewline = None,
        Raw = [''p_trim_trailing_whitespace'' \<mapsto> ''true'']\<rparr>"
  have o1: "range_order [''p_tab_width'', ''p_indent_style''] (Raw d1)"
    by (simp add: range_order_def d1_def)
  have s1: "single_prefix ''p_'' (Raw d1)"
    by (simp add: single_prefix_def d1_def HasPrefix_def)
  have r1: "snd (OverrideDefinitionUsingPrefix [''p_tab_width'', ''p_indent_style''] d1 ''p_'') = None"
    by (simp add: OverrideDefinitionUsingPrefix_def override_entry_def Let_def HasPrefix_def d1_def
        Atoi_def is_digit_def)
  have a1: "''indent_style'' \<in> allow_list" "''tab_width'' \<in> allow_list"
    by (simp_all add: allow_list_def)
  have v1: "Raw d1 (''p_'' @ ''indent_style'') = Some ''tab''"
    "Raw d1 (''p_'' @ ''tab_width'') = Some ''4''"
    by (simp_all add: d1_def)
  note T1 = OverrideDefinitionUsingPrefix_errors[OF o1 surjective_pairing, of "''p_''"]
  have f1: "field_is ''indent_style'' ''tab''
      (fst (OverrideDefinitionUsingPrefix [''p_tab_width'', ''p_indent_style''] d1 ''p_''))"
    using T1 s1 a1(1) v1(1) r1 by blast
  have f2: "field_is ''tab_width'' ''4''
      (fst (OverrideDefinitionUsingPrefix [''p_tab_width'', ''p_indent_style''] d1 ''p_''))"
    using T1 s1 a1(2) v1(2) r1 by blast
  have o2: "range_order [''p_trim_trailing_whitespace''] (Raw d2)"
    by (simp add: range_order_def d2_def)
  have t2: "tab_widths_parse (Raw d2)"
    by (simp add: tab_widths_parse_def d2_def suffix_def)
  have k2: "''p_'' @ ''trim_trailing_whitespace'' \<in> dom (Raw d2)"
    by (simp add: d2_def)
  note T2 = OverrideDefinitionUsingPrefix_errors[OF o2 surjective_pairing, of "''p_''"]
  have "snd (OverrideDefinitionUsingPrefix [''p_trim_trailing_whitespace''] d2 ''p_'')
          = Some (CannotBeOverridden ''trim_trailing_whitespace'')
      \<or> snd (OverrideDefinitionUsingPrefix [''p_trim_trailing_whitespace''] d2 ''p_'')
          = Some (CannotBeOverridden ''insert_final_newline'')"
    using T2 t2 k2 by blast
  moreover have "snd (OverrideDefinitionUsingPrefix [''p_trim_trailing_whitespace''] d2 ''p_'')
          \<noteq> Some (CannotBeOverridden ''insert_final_newline'')"
    by (simp add: OverrideDefinitionUsingPrefix_def override_entry_def Let_def HasPrefix_def d2_def)
  ultimately have e2: "snd (OverrideDefinitionUsingPrefix [''p_trim_trailing_whitespace''] d2 ''p_'')
          = Some (CannotBeOverridden ''trim_trailing_whitespace'')"
    by blast
  show ?thesis
    using o1 s1 r1 f1 f2 o2 t2 e2
    unfolding d1_def d2_def by (simp add: field_is_def)
qed

text \<open>A prefixed \<open>tab_width\<close> that is no integer, met before a prefixed
  \<open>trim_trailing_whitespace\<close>: the error is not the not-supported one. And a
  prefixed \<open>tab_width\<close> that is no integer, overwritten by the copy of a doubly
  prefixed one before it is visited: the call succeeds.\<close>

theorem OverrideDefinitionUsingPrefix_errors_counterexample:
  "range_order [''p_tab_width'', ''p_trim_trailing_whitespace'']
     [''p_tab_width'' \<mapsto> ''x'', ''p_trim_trailing_whitespace'' \<mapsto> ''true'']
 \<and> snd (OverrideDefinitionUsingPrefix [''p_tab_width'', ''p_trim_trailing_whitespace'']
      \<lparr>Selector = [], Charset = [], IndentStyle = [], IndentSize = [], TabWidth = 0,
        EndOfLine = [], TrimTrailingWhitespace = None, InsertFinalNewline = None,
        Raw = [''p_tab_width'' \<mapsto> ''x'', ''p_trim_trailing_whitespace'' \<mapsto> ''true'']\<rparr> ''p_'')
   = Some (TabWidthCannotBeSet ''x'')
 \<and> range_order [''p_p_tab_width'', ''p_tab_width'']
     [''p_tab_width'' \<mapsto> ''x'', ''p_p_tab_width'' \<mapsto> ''5'']
 \<and> Atoi ''x'' = None
 \<and> snd (OverrideDefinitionUsingPrefix [''p_p_tab_width'', ''p_tab_width'']
      \<lparr>Selector = [], Charset = [], IndentStyle = [], IndentSize = [], TabWidth = 0,
        EndOfLine = [], TrimTrailingWhitespace = None, InsertFinalNewline = None,
        Raw = [''p_tab_width'' \<mapsto> ''x'', ''p_p_tab_width'' \<mapsto> ''5'']\<rparr> ''p_'')
   = None
 \<and> TabWidth (fst (OverrideDefinitionUsingPrefix [''p_p_tab_width'', ''p_tab_width'']
      \<lparr>Selector = [], Charset = [], IndentStyle = [], IndentSize = [], TabWidth = 0,
        EndOfLine = [], TrimTrailingWhitespace = None, InsertFinalNewline = None,
        Raw = [''p_tab_width'' \<mapsto> ''x'', ''p_p_tab_width'' \<mapsto> ''5'']\<rparr> ''p_''))
   = 5"
  by (simp add: range_order_def OverrideDefinitionUsingPrefix_def override_entry_def
      Let_def HasPrefix_def Atoi_def is_digit_def)




end
